theory Spec2Isabelle
  imports Complex_Main
begin

section \<open>Dense arrays\<close>

text \<open>
  \<^verbatim>\<open>rope_simple.py\<close> is one function, \<^verbatim>\<open>apply_rope\<close>, written with array operations:
  \<^verbatim>\<open>arange\<close>, arithmetic with broadcasting, indexing with \<^verbatim>\<open>None\<close> and with strided
  slices, \<^verbatim>\<open>cos\<close>, \<^verbatim>\<open>sin\<close>, \<^verbatim>\<open>stack\<close> and \<^verbatim>\<open>reshape\<close>. An array is modelled as the
  library holds it: an element type, a shape, and the elements in row-major order.
  Element values are real numbers (the exact arithmetic that the floating-point
  operations approximate); the element type is carried as a tag and follows the
  library's promotion rules.
\<close>

datatype dtype = Int32 | BFloat16 | Float16 | Float32

record ndarray =
  dtype :: dtype
  shape :: "nat list"
  elems :: "real list"

datatype error = IndexError | AssertionError | BroadcastError | StackError | ReshapeError

definition well_formed :: "ndarray \<Rightarrow> bool" where
  "well_formed a \<longleftrightarrow> length (elems a) = prod_list (shape a)"

text \<open>Row-major position of a multi-index, and the multi-index of a position.\<close>

fun ravel :: "nat list \<Rightarrow> nat list \<Rightarrow> nat" where
  "ravel (d # ds) (i # is) = i * prod_list ds + ravel ds is"
| "ravel _ _ = 0"

fun unravel :: "nat list \<Rightarrow> nat \<Rightarrow> nat list" where
  "unravel [] n = []"
| "unravel (d # ds) n = (n div prod_list ds) # unravel ds (n mod prod_list ds)"

fun in_bounds :: "nat list \<Rightarrow> nat list \<Rightarrow> bool" where
  "in_bounds [] [] = True"
| "in_bounds (d # ds) (i # is) = (i < d \<and> in_bounds ds is)"
| "in_bounds _ _ = False"

definition entry :: "ndarray \<Rightarrow> nat list \<Rightarrow> real" where
  "entry a idx = elems a ! ravel (shape a) idx"

definition tabulate :: "dtype \<Rightarrow> nat list \<Rightarrow> (nat list \<Rightarrow> real) \<Rightarrow> ndarray" where
  "tabulate t sh f =
     \<lparr>dtype = t, shape = sh, elems = map (\<lambda>n. f (unravel sh n)) [0..<prod_list sh]\<rparr>"

subsection \<open>Element types\<close>

text \<open>
  The promotion of two array element types: integers give way to floats, and the
  two 16-bit float types meet at \<open>Float32\<close>. A Python scalar is weakly typed: it
  takes the array's type, except that a true division turns integers into the
  default float type.
\<close>

fun promote :: "dtype \<Rightarrow> dtype \<Rightarrow> dtype" where
  "promote Int32 t = t"
| "promote t Int32 = t"
| "promote Float32 t = Float32"
| "promote t Float32 = Float32"
| "promote BFloat16 BFloat16 = BFloat16"
| "promote Float16 Float16 = Float16"
| "promote BFloat16 Float16 = Float32"
| "promote Float16 BFloat16 = Float32"

fun to_inexact :: "dtype \<Rightarrow> dtype" where
  "to_inexact Int32 = Float32"
| "to_inexact t = t"

subsection \<open>Operations of the array library used by the source\<close>

definition bind :: "error + 'a \<Rightarrow> ('a \<Rightarrow> error + 'b) \<Rightarrow> error + 'b" where
  "bind m f = (case m of Inl e \<Rightarrow> Inl e | Inr v \<Rightarrow> f v)"

definition arange :: "nat \<Rightarrow> nat \<Rightarrow> ndarray" where
  \<comment> \<open>\<^verbatim>\<open>jnp.arange(start, stop)\<close>: the integers \<open>start, ..., stop - 1\<close>.\<close>
  "arange start stop =
     \<lparr>dtype = Int32, shape = [stop - start], elems = map real [start..<stop]\<rparr>"

definition scalar_mul :: "real \<Rightarrow> ndarray \<Rightarrow> ndarray" where
  \<comment> \<open>\<^verbatim>\<open>c * a\<close> for a Python integer \<open>c\<close>.\<close>
  "scalar_mul c a = a\<lparr>elems := map (\<lambda>v. c * v) (elems a)\<rparr>"

definition true_divide_scalar :: "ndarray \<Rightarrow> real \<Rightarrow> ndarray" where
  \<comment> \<open>\<^verbatim>\<open>a / c\<close> for a Python integer \<open>c\<close>.\<close>
  "true_divide_scalar a c =
     a\<lparr>dtype := to_inexact (dtype a), elems := map (\<lambda>v. v / c) (elems a)\<rparr>"

definition scalar_pow :: "real \<Rightarrow> ndarray \<Rightarrow> ndarray" where
  \<comment> \<open>\<^verbatim>\<open>c ** a\<close> for a Python number \<open>c\<close>; for a positive \<open>c\<close> this is \<open>c powr v\<close>.\<close>
  "scalar_pow c a =
     a\<lparr>dtype := to_inexact (dtype a), elems := map (\<lambda>v. c powr v) (elems a)\<rparr>"

definition cos_arr :: "ndarray \<Rightarrow> ndarray" where
  "cos_arr a = a\<lparr>dtype := to_inexact (dtype a), elems := map cos (elems a)\<rparr>"

definition sin_arr :: "ndarray \<Rightarrow> ndarray" where
  "sin_arr a = a\<lparr>dtype := to_inexact (dtype a), elems := map sin (elems a)\<rparr>"

definition expand_last :: "ndarray \<Rightarrow> ndarray" where
  \<comment> \<open>\<^verbatim>\<open>a[..., None]\<close>: a new axis of size 1 at the end.\<close>
  "expand_last a = a\<lparr>shape := shape a @ [1]\<rparr>"

definition expand_before_last :: "ndarray \<Rightarrow> error + ndarray" where
  \<comment> \<open>\<^verbatim>\<open>a[..., None, :]\<close>: a new axis of size 1 before the last one.\<close>
  "expand_before_last a =
     (if shape a = [] then Inl IndexError
      else Inr (a\<lparr>shape := butlast (shape a) @ [1, last (shape a)]\<rparr>))"

definition slice_last :: "nat \<Rightarrow> nat \<Rightarrow> ndarray \<Rightarrow> ndarray" where
  \<comment> \<open>\<^verbatim>\<open>a[..., start::step]\<close>: every \<open>step\<close>-th entry of the last axis from \<open>start\<close> on.\<close>
  "slice_last start step a =
     tabulate (dtype a)
       (butlast (shape a) @ [(last (shape a) - start + step - 1) div step])
       (\<lambda>idx. entry a (butlast idx @ [start + step * last idx]))"

text \<open>
  Broadcasting: shapes are aligned at their last axes; two sizes are compatible
  when they are equal or one of them is 1; a missing leading axis counts as 1.
\<close>

fun broadcast_dim :: "nat \<Rightarrow> nat \<Rightarrow> nat option" where
  "broadcast_dim m n =
     (if m = n then Some m else if m = 1 then Some n else if n = 1 then Some m else None)"

fun broadcast_rev :: "nat list \<Rightarrow> nat list \<Rightarrow> nat list option" where
  "broadcast_rev [] ns = Some ns"
| "broadcast_rev ms [] = Some ms"
| "broadcast_rev (m # ms) (n # ns) =
     (case broadcast_dim m n of
        None \<Rightarrow> None
      | Some d \<Rightarrow> (case broadcast_rev ms ns of None \<Rightarrow> None | Some ds \<Rightarrow> Some (d # ds)))"

definition broadcast_shapes :: "nat list \<Rightarrow> nat list \<Rightarrow> nat list option" where
  "broadcast_shapes ms ns = map_option rev (broadcast_rev (rev ms) (rev ns))"

definition broadcast_index :: "nat list \<Rightarrow> nat list \<Rightarrow> nat list" where
  \<comment> \<open>The index into an operand of shape \<open>sh\<close> for the index \<open>idx\<close> of the result.\<close>
  "broadcast_index sh idx =
     map2 (\<lambda>d i. if d = 1 then 0 else i) sh (drop (length idx - length sh) idx)"

definition binary_op :: "(real \<Rightarrow> real \<Rightarrow> real) \<Rightarrow> ndarray \<Rightarrow> ndarray \<Rightarrow> error + ndarray" where
  "binary_op f a b =
     (case broadcast_shapes (shape a) (shape b) of
        None \<Rightarrow> Inl BroadcastError
      | Some sh \<Rightarrow>
          Inr (tabulate (promote (dtype a) (dtype b)) sh
                 (\<lambda>idx. f (entry a (broadcast_index (shape a) idx))
                          (entry b (broadcast_index (shape b) idx)))))"

definition multiply :: "ndarray \<Rightarrow> ndarray \<Rightarrow> error + ndarray" where
  "multiply = binary_op (*)"

definition add :: "ndarray \<Rightarrow> ndarray \<Rightarrow> error + ndarray" where
  "add = binary_op (+)"

definition subtract :: "ndarray \<Rightarrow> ndarray \<Rightarrow> error + ndarray" where
  "subtract = binary_op (-)"

definition stack_last :: "ndarray \<Rightarrow> ndarray \<Rightarrow> error + ndarray" where
  \<comment> \<open>\<^verbatim>\<open>jnp.stack([a, b], axis=-1)\<close>: the arrays must have one shape; the new last
      axis has size 2.\<close>
  "stack_last a b =
     (if shape a \<noteq> shape b then Inl StackError
      else Inr (tabulate (promote (dtype a) (dtype b)) (shape a @ [2])
                  (\<lambda>idx. if last idx = 0 then entry a (butlast idx) else entry b (butlast idx))))"

definition reshape_infer_last :: "ndarray \<Rightarrow> nat list \<Rightarrow> error + ndarray" where
  \<comment> \<open>\<^verbatim>\<open>a.reshape(*lead, -1)\<close>: the elements stay in row-major order; the size of
      the last axis is the array's size divided by the product of \<open>lead\<close>, which
      must be a nonzero divisor of it.\<close>
  "reshape_infer_last a lead =
     (let n = prod_list (shape a); m = prod_list lead
      in if m = 0 \<or> n mod m \<noteq> 0 then Inl ReshapeError
         else Inr (a\<lparr>shape := lead @ [n div m]\<rparr>))"

section \<open>The source function\<close>

text \<open>
  \<^verbatim>\<open>apply_rope(x, position, base=_DEFAULT_BASE)\<close>, statement by statement:
  \<^item> \<^verbatim>\<open>head_dim = x.shape[-1]\<close> raises \<open>IndexError\<close> for an array without axes;
  \<^item> \<^verbatim>\<open>assert head_dim % 2 == 0\<close> is the only check of the function itself;
  \<^item> \<^verbatim>\<open>freq = position[..., None] * timescale\<close> and \<^verbatim>\<open>freq = freq[..., None, :]\<close>;
  \<^item> \<^verbatim>\<open>x_even = x[..., ::2]\<close>, \<^verbatim>\<open>x_odd = x[..., 1::2]\<close>;
  \<^item> the tuple \<^verbatim>\<open>(x_even * cos_freq - x_odd * sin_freq, x_odd * cos_freq + x_even * sin_freq)\<close>,
    evaluated from left to right;
  \<^item> \<^verbatim>\<open>jnp.stack([x_even, x_odd], axis=-1)\<close> and
    \<^verbatim>\<open>stacked.reshape(*stacked.shape[:-2], -1)\<close>.

  Every library operation that can reject its arguments returns a sum, and the first
  failure ends the call. \<open>base ** power\<close> is \<open>powr\<close>, which is the floating-point power
  for a positive base; statements about values are made for a positive base.
\<close>

definition DEFAULT_BASE :: real where
  "DEFAULT_BASE = 10000"

definition rope_power :: "nat \<Rightarrow> ndarray" where
  \<comment> \<open>\<^verbatim>\<open>power = -2 * jnp.arange(0, head_dim // 2) / head_dim\<close>\<close>
  "rope_power head_dim =
     true_divide_scalar (scalar_mul (- 2) (arange 0 (head_dim div 2))) (real head_dim)"

definition rope_timescale :: "real \<Rightarrow> nat \<Rightarrow> ndarray" where
  \<comment> \<open>\<^verbatim>\<open>timescale = base**power\<close>\<close>
  "rope_timescale base head_dim = scalar_pow base (rope_power head_dim)"

definition apply_rope :: "ndarray \<Rightarrow> ndarray \<Rightarrow> real \<Rightarrow> error + ndarray" where
  "apply_rope x position base =
     (if shape x = [] then Inl IndexError
      else
        let head_dim = last (shape x) in
        if head_dim mod 2 \<noteq> 0 then Inl AssertionError
        else
          let timescale = rope_timescale base head_dim in
          bind (multiply (expand_last position) timescale) (\<lambda>freq.
          bind (expand_before_last freq) (\<lambda>freq.
            let cos_freq = cos_arr freq;
                sin_freq = sin_arr freq;
                x_even = slice_last 0 2 x;
                x_odd = slice_last 1 2 x
            in
            bind (multiply x_even cos_freq) (\<lambda>ec.
            bind (multiply x_odd sin_freq) (\<lambda>os.
            bind (subtract ec os) (\<lambda>new_even.
            bind (multiply x_odd cos_freq) (\<lambda>oc.
            bind (multiply x_even sin_freq) (\<lambda>es.
            bind (add oc es) (\<lambda>new_odd.
            bind (stack_last new_even new_odd) (\<lambda>stacked.
              reshape_infer_last stacked (butlast (butlast (shape stacked)))))))))))))"

text \<open>The rotation angle of plane \<open>k\<close> at batch \<open>b\<close> and position \<open>s\<close>.\<close>

definition rope_angle :: "ndarray \<Rightarrow> real \<Rightarrow> nat \<Rightarrow> nat \<Rightarrow> nat \<Rightarrow> nat \<Rightarrow> real" where
  "rope_angle position base D b s k = entry position [b, s] * (base powr (- 2 * real k / real D))"

subsection \<open>Concrete inputs\<close>

text \<open>Small arrays on which the statements below are evaluated.\<close>

definition x_unit :: ndarray where
  "x_unit = \<lparr>dtype = Float32, shape = [1, 1, 1, 2], elems = [1, 0]\<rparr>"

definition position_quarter :: ndarray where
  "position_quarter = \<lparr>dtype = Float32, shape = [1, 1], elems = [pi / 2]\<rparr>"

definition x_odd_dim :: ndarray where
  "x_odd_dim = \<lparr>dtype = Float32, shape = [1, 1, 1, 3], elems = [1, 2, 3]\<rparr>"

definition x_bfloat16 :: ndarray where
  "x_bfloat16 = \<lparr>dtype = BFloat16, shape = [1, 1, 1, 2], elems = [1, 0]\<rparr>"

definition position_int32 :: ndarray where
  "position_int32 = \<lparr>dtype = Int32, shape = [1, 1], elems = [0]\<rparr>"

text \<open>Arrays with an empty leading axis: no batch, no position, no head.\<close>

definition x_empty_batch :: ndarray where
  "x_empty_batch = \<lparr>dtype = Float32, shape = [0, 1, 1, 2], elems = []\<rparr>"

definition position_empty_batch :: ndarray where
  "position_empty_batch = \<lparr>dtype = Int32, shape = [0, 1], elems = []\<rparr>"

definition x_empty_sequence :: ndarray where
  "x_empty_sequence = \<lparr>dtype = Float32, shape = [2, 0, 1, 2], elems = []\<rparr>"

definition x_no_heads :: ndarray where
  "x_no_heads = \<lparr>dtype = Float32, shape = [1, 1, 0, 2], elems = []\<rparr>"

subsection \<open>Operations on position arrays that the properties speak of\<close>

definition full :: "dtype \<Rightarrow> nat list \<Rightarrow> real \<Rightarrow> ndarray" where
  \<comment> \<open>\<^verbatim>\<open>jnp.full(shape, v)\<close>; \<^verbatim>\<open>jnp.zeros(shape)\<close> is \<open>full t shape 0\<close>.\<close>
  "full t sh v = \<lparr>dtype = t, shape = sh, elems = replicate (prod_list sh) v\<rparr>"

definition add_scalar :: "ndarray \<Rightarrow> real \<Rightarrow> ndarray" where
  \<comment> \<open>\<^verbatim>\<open>a + c\<close> for a Python number \<open>c\<close>.\<close>
  "add_scalar a c = a\<lparr>elems := map (\<lambda>v. v + c) (elems a)\<rparr>"

definition negative :: "ndarray \<Rightarrow> ndarray" where
  \<comment> \<open>\<^verbatim>\<open>-a\<close>\<close>
  "negative a = a\<lparr>elems := map uminus (elems a)\<rparr>"

section \<open>Indexing lemmas\<close>

lemma ravel_less: "in_bounds sh idx \<Longrightarrow> ravel sh idx < prod_list sh"
proof (induction sh idx rule: in_bounds.induct)
  case (2 d ds i "is")
  then have i: "i < d" and r: "ravel ds is < prod_list ds" by simp_all
  have "i * prod_list ds + ravel ds is < (i + 1) * prod_list ds" using r by simp
  also have "\<dots> \<le> d * prod_list ds" using i by (intro mult_le_mono1) simp
  finally show ?case by simp
qed simp_all

lemma unravel_ravel: "in_bounds sh idx \<Longrightarrow> unravel sh (ravel sh idx) = idx"
proof (induction sh idx rule: in_bounds.induct)
  case (2 d ds i "is")
  then have r: "ravel ds is < prod_list ds" by (simp add: ravel_less)
  with 2 show ?case by simp
qed simp_all

lemma unravel_in_bounds: "n < prod_list sh \<Longrightarrow> in_bounds sh (unravel sh n)"
proof (induction sh arbitrary: n)
  case (Cons d ds)
  then have pos: "0 < prod_list ds" by (cases "prod_list ds = 0") simp_all
  have "n div prod_list ds < d" using Cons.prems pos
    by (simp add: less_mult_imp_div_less mult.commute)
  moreover have "n mod prod_list ds < prod_list ds" using pos by simp
  ultimately show ?case using Cons.IH by simp
qed simp

lemma ravel_unravel: "n < prod_list sh \<Longrightarrow> ravel sh (unravel sh n) = n"
proof (induction sh arbitrary: n)
  case (Cons d ds)
  then have pos: "0 < prod_list ds" by (cases "prod_list ds = 0") simp_all
  then have "n mod prod_list ds < prod_list ds" by simp
  with Cons.IH show ?case by simp
qed simp

lemma shape_tabulate [simp]: "shape (tabulate t sh f) = sh"
  and dtype_tabulate [simp]: "dtype (tabulate t sh f) = t"
  and well_formed_tabulate [simp]: "well_formed (tabulate t sh f)"
  by (simp_all add: tabulate_def well_formed_def)

lemma entry_tabulate: "in_bounds sh idx \<Longrightarrow> entry (tabulate t sh f) idx = f idx"
  by (simp add: entry_def tabulate_def ravel_less unravel_ravel)

lemma array_ext:
  assumes "well_formed a" "well_formed b" "shape a = shape b"
    and "\<And>idx. in_bounds (shape a) idx \<Longrightarrow> entry a idx = entry b idx"
  shows "elems a = elems b"
proof (rule nth_equalityI)
  show "length (elems a) = length (elems b)" using assms(1-3) by (simp add: well_formed_def)
next
  fix n assume "n < length (elems a)"
  then have n: "n < prod_list (shape a)" using assms(1) by (simp add: well_formed_def)
  have "entry a (unravel (shape a) n) = entry b (unravel (shape a) n)"
    using assms(4) n by (simp add: unravel_in_bounds)
  then show "elems a ! n = elems b ! n"
    using n assms(3) by (simp add: entry_def ravel_unravel)
qed

section \<open>The steps of the computation\<close>

lemma bind_Inr [simp]: "bind (Inr v) f = f v"
  and bind_Inl [simp]: "bind (Inl e) f = Inl e"
  by (simp_all add: bind_def)

lemma binary_op_props:
  assumes "broadcast_shapes (shape a) (shape b) = Some sh"
  obtains r where "binary_op f a b = Inr r" "shape r = sh"
    "dtype r = promote (dtype a) (dtype b)" "well_formed r"
    "\<And>idx. in_bounds sh idx \<Longrightarrow>
       entry r idx = f (entry a (broadcast_index (shape a) idx))
                       (entry b (broadcast_index (shape b) idx))"
  using assms by (simp add: binary_op_def entry_tabulate)

lemma broadcast_3_1: "broadcast_shapes [B, S, 1] [K] = Some [B, S, K]"
  by (simp add: broadcast_shapes_def)

lemma broadcast_4_4: "broadcast_shapes [B, S, H, K] [B, S, 1, K] = Some [B, S, H, K]"
  by (simp add: broadcast_shapes_def)

lemma broadcast_same: "broadcast_rev sh sh = Some sh"
  by (induction sh) simp_all

lemma broadcast_shapes_same: "broadcast_shapes sh sh = Some sh"
  by (simp add: broadcast_shapes_def broadcast_same)

lemma bidx_keep: "i < d \<Longrightarrow> (if d = Suc 0 then 0 else i) = i"
  by auto

lemma broadcast_index_same: "in_bounds sh idx \<Longrightarrow> broadcast_index sh idx = idx"
proof -
  have *: "in_bounds sh idx \<Longrightarrow> map2 (\<lambda>d i. if d = 1 then 0 else i) sh idx = idx"
    by (induction sh idx rule: in_bounds.induct) auto
  have "in_bounds sh idx \<Longrightarrow> length idx = length sh"
    by (induction sh idx rule: in_bounds.induct) auto
  then show "in_bounds sh idx \<Longrightarrow> broadcast_index sh idx = idx"
    using * by (simp add: broadcast_index_def)
qed

lemma rope_timescale_props:
  "shape (rope_timescale base D) = [D div 2]"
  "dtype (rope_timescale base D) = Float32"
  "k < D div 2 \<Longrightarrow> entry (rope_timescale base D) [k] = base powr (- 2 * real k / real D)"
  by (simp_all add: rope_timescale_def rope_power_def scalar_pow_def true_divide_scalar_def
        scalar_mul_def arange_def entry_def)

lemma rope_freq:
  assumes p: "shape position = [B, S]"
  obtains freq where
    "multiply (expand_last position) (rope_timescale base D) = Inr freq"
    "shape freq = [B, S, D div 2]"
    "dtype freq = Float32"
    "well_formed freq"
    "\<And>b s k. b < B \<Longrightarrow> s < S \<Longrightarrow> k < D div 2 \<Longrightarrow>
       entry freq [b, s, k] = entry position [b, s] * (base powr (- 2 * real k / real D))"
proof -
  let ?ts = "rope_timescale base D"
  have sh: "shape (expand_last position) = [B, S, 1]" using p by (simp add: expand_last_def)
  have "broadcast_shapes (shape (expand_last position)) (shape ?ts) = Some [B, S, D div 2]"
    unfolding sh rope_timescale_props(1) by (rule broadcast_3_1)
  then obtain r where r: "binary_op (*) (expand_last position) ?ts = Inr r"
    "shape r = [B, S, D div 2]"
    "dtype r = promote (dtype (expand_last position)) (dtype ?ts)"
    "well_formed r"
    "\<And>idx. in_bounds [B, S, D div 2] idx \<Longrightarrow>
       entry r idx = entry (expand_last position) (broadcast_index (shape (expand_last position)) idx)
                     * entry ?ts (broadcast_index (shape ?ts) idx)"
    by (rule binary_op_props[where f = "(*)"]) blast
  have dt: "dtype r = Float32"
    by (cases "dtype (expand_last position)") (simp_all add: r(3) rope_timescale_props)
  have en: "entry r [b, s, k] = entry position [b, s] * (base powr (- 2 * real k / real D))"
    if "b < B" "s < S" "k < D div 2" for b s k
  proof -
    have "in_bounds [B, S, D div 2] [b, s, k]" using that by simp
    then have "entry r [b, s, k] =
        entry (expand_last position) (broadcast_index [B, S, 1] [b, s, k])
        * entry ?ts (broadcast_index [D div 2] [b, s, k])"
      using r(5) by (simp add: sh rope_timescale_props)
    moreover have "broadcast_index [B, S, 1] [b, s, k] = [b, s, 0]"
      using that by (simp add: broadcast_index_def bidx_keep)
    moreover have "broadcast_index [D div 2] [b, s, k] = [k]"
      using that by (simp add: broadcast_index_def bidx_keep)
    moreover have "entry (expand_last position) [b, s, 0] = entry position [b, s]"
      using p by (simp add: entry_def expand_last_def)
    ultimately show ?thesis using that by (simp add: rope_timescale_props)
  qed
  show thesis using that[of r] r(1,2,4) dt en by (simp add: multiply_def)
qed

lemma entry_cos_arr:
  "well_formed a \<Longrightarrow> in_bounds (shape a) idx \<Longrightarrow> entry (cos_arr a) idx = cos (entry a idx)"
  using ravel_less[of "shape a" idx] by (simp add: cos_arr_def entry_def well_formed_def)

lemma entry_sin_arr:
  "well_formed a \<Longrightarrow> in_bounds (shape a) idx \<Longrightarrow> entry (sin_arr a) idx = sin (entry a idx)"
  using ravel_less[of "shape a" idx] by (simp add: sin_arr_def entry_def well_formed_def)

lemma rope_angles:
  assumes p: "shape position = [B, S]"
  obtains f0 freq where
    "multiply (expand_last position) (rope_timescale base D) = Inr f0"
    "expand_before_last f0 = Inr freq"
    "shape freq = [B, S, 1, D div 2]"
    "dtype freq = Float32"
    "well_formed freq"
    "\<And>b s k. b < B \<Longrightarrow> s < S \<Longrightarrow> k < D div 2 \<Longrightarrow>
       entry freq [b, s, 0, k] = entry position [b, s] * (base powr (- 2 * real k / real D))"
proof -
  obtain f0 where f0: "multiply (expand_last position) (rope_timescale base D) = Inr f0"
    "shape f0 = [B, S, D div 2]" "dtype f0 = Float32" "well_formed f0"
    "\<And>b s k. b < B \<Longrightarrow> s < S \<Longrightarrow> k < D div 2 \<Longrightarrow>
       entry f0 [b, s, k] = entry position [b, s] * (base powr (- 2 * real k / real D))"
    using p by (rule rope_freq) blast
  let ?f = "f0\<lparr>shape := [B, S, 1, D div 2]\<rparr>"
  have 1: "expand_before_last f0 = Inr ?f"
    by (simp add: f0 expand_before_last_def)
  have 2: "well_formed ?f" using f0(2,4) by (simp add: well_formed_def)
  have 3: "entry ?f [b, s, 0, k] = entry f0 [b, s, k]" for b s k
    by (simp add: entry_def f0(2))
  show thesis using that[of f0 ?f] 1 2 3 f0 by simp
qed

lemma slice_even_props:
  assumes "shape x = [B, S, H, 2 * K]"
  shows "shape (slice_last 0 2 x) = [B, S, H, K]"
    and "dtype (slice_last 0 2 x) = dtype x"
    and "well_formed (slice_last 0 2 x)"
    and "b < B \<Longrightarrow> s < S \<Longrightarrow> h < H \<Longrightarrow> k < K \<Longrightarrow>
          entry (slice_last 0 2 x) [b, s, h, k] = entry x [b, s, h, 2 * k]"
proof -
  have sl: "slice_last 0 2 x = tabulate (dtype x) [B, S, H, K]
              (\<lambda>idx. entry x (butlast idx @ [0 + 2 * last idx]))"
    using assms by (simp add: slice_last_def)
  show "shape (slice_last 0 2 x) = [B, S, H, K]" "dtype (slice_last 0 2 x) = dtype x"
    "well_formed (slice_last 0 2 x)" by (simp_all add: sl)
  show "b < B \<Longrightarrow> s < S \<Longrightarrow> h < H \<Longrightarrow> k < K \<Longrightarrow>
          entry (slice_last 0 2 x) [b, s, h, k] = entry x [b, s, h, 2 * k]"
    by (simp add: sl entry_tabulate)
qed

lemma slice_odd_props:
  assumes "shape x = [B, S, H, 2 * K]"
  shows "shape (slice_last 1 2 x) = [B, S, H, K]"
    and "dtype (slice_last 1 2 x) = dtype x"
    and "well_formed (slice_last 1 2 x)"
    and "b < B \<Longrightarrow> s < S \<Longrightarrow> h < H \<Longrightarrow> k < K \<Longrightarrow>
          entry (slice_last 1 2 x) [b, s, h, k] = entry x [b, s, h, 2 * k + 1]"
proof -
  have "(2 * K - 1 + 2 - 1) div 2 = K" by (cases K) simp_all
  then have sl: "slice_last 1 2 x = tabulate (dtype x) [B, S, H, K]
              (\<lambda>idx. entry x (butlast idx @ [1 + 2 * last idx]))"
    using assms by (simp add: slice_last_def)
  show "shape (slice_last 1 2 x) = [B, S, H, K]" "dtype (slice_last 1 2 x) = dtype x"
    "well_formed (slice_last 1 2 x)" unfolding sl by simp_all
  show "b < B \<Longrightarrow> s < S \<Longrightarrow> h < H \<Longrightarrow> k < K \<Longrightarrow>
          entry (slice_last 1 2 x) [b, s, h, k] = entry x [b, s, h, 2 * k + 1]"
    unfolding sl by (simp add: entry_tabulate)
qed

lemma binary_op_heads:
  assumes "shape a = [B, S, H, K]" "shape c = [B, S, 1, K]"
  obtains r where "binary_op f a c = Inr r" "shape r = [B, S, H, K]"
    "dtype r = promote (dtype a) (dtype c)" "well_formed r"
    "\<And>b s h k. b < B \<Longrightarrow> s < S \<Longrightarrow> h < H \<Longrightarrow> k < K \<Longrightarrow>
       entry r [b, s, h, k] = f (entry a [b, s, h, k]) (entry c [b, s, 0, k])"
proof -
  have "broadcast_shapes (shape a) (shape c) = Some [B, S, H, K]"
    unfolding assms by (rule broadcast_4_4)
  then obtain r where r: "binary_op f a c = Inr r" "shape r = [B, S, H, K]"
    "dtype r = promote (dtype a) (dtype c)" "well_formed r"
    "\<And>idx. in_bounds [B, S, H, K] idx \<Longrightarrow>
       entry r idx = f (entry a (broadcast_index (shape a) idx))
                       (entry c (broadcast_index (shape c) idx))"
    by (rule binary_op_props[where f = f]) blast
  have "entry r [b, s, h, k] = f (entry a [b, s, h, k]) (entry c [b, s, 0, k])"
    if "b < B" "s < S" "h < H" "k < K" for b s h k
  proof -
    have "in_bounds [B, S, H, K] [b, s, h, k]" using that by simp
    moreover have "broadcast_index (shape a) [b, s, h, k] = [b, s, h, k]"
      using that by (simp add: assms broadcast_index_def bidx_keep)
    moreover have "broadcast_index (shape c) [b, s, h, k] = [b, s, 0, k]"
      using that by (simp add: assms broadcast_index_def bidx_keep)
    ultimately show ?thesis using r(5) by simp
  qed
  then show thesis using that[of r] r(1-4) by blast
qed

lemma binary_op_same:
  assumes "shape a = sh" "shape c = sh"
  obtains r where "binary_op f a c = Inr r" "shape r = sh"
    "dtype r = promote (dtype a) (dtype c)" "well_formed r"
    "\<And>idx. in_bounds sh idx \<Longrightarrow> entry r idx = f (entry a idx) (entry c idx)"
proof -
  have "broadcast_shapes (shape a) (shape c) = Some sh"
    unfolding assms by (rule broadcast_shapes_same)
  then obtain r where r: "binary_op f a c = Inr r" "shape r = sh"
    "dtype r = promote (dtype a) (dtype c)" "well_formed r"
    "\<And>idx. in_bounds sh idx \<Longrightarrow>
       entry r idx = f (entry a (broadcast_index (shape a) idx))
                       (entry c (broadcast_index (shape c) idx))"
    by (rule binary_op_props[where f = f]) blast
  have "entry r idx = f (entry a idx) (entry c idx)" if "in_bounds sh idx" for idx
    using r(5)[OF that] that by (simp add: assms broadcast_index_same)
  then show thesis using that[of r] r(1-4) by blast
qed

lemma promote_idem [simp]: "promote t t = t"
  by (cases t) simp_all

lemma promote_Float32 [simp]: "promote t Float32 = Float32"
  by (cases t) simp_all

lemma stack_last_props:
  assumes "shape a = [B, S, H, K]" "shape c = [B, S, H, K]"
  obtains r where "stack_last a c = Inr r" "shape r = [B, S, H, K, 2]"
    "dtype r = promote (dtype a) (dtype c)" "well_formed r"
    "\<And>b s h k. b < B \<Longrightarrow> s < S \<Longrightarrow> h < H \<Longrightarrow> k < K \<Longrightarrow>
       entry r [b, s, h, k, 0] = entry a [b, s, h, k] \<and>
       entry r [b, s, h, k, 1] = entry c [b, s, h, k]"
proof -
  let ?r = "tabulate (promote (dtype a) (dtype c)) [B, S, H, K, 2]
              (\<lambda>idx. if last idx = 0 then entry a (butlast idx) else entry c (butlast idx))"
  have 1: "stack_last a c = Inr ?r" by (simp add: stack_last_def assms)
  have 2: "entry ?r [b, s, h, k, 0] = entry a [b, s, h, k] \<and>
       entry ?r [b, s, h, k, 1] = entry c [b, s, h, k]"
    if "b < B" "s < S" "h < H" "k < K" for b s h k
  proof -
    have "in_bounds [B, S, H, K, 2] [b, s, h, k, 0]" "in_bounds [B, S, H, K, 2] [b, s, h, k, 1]"
      using that by simp_all
    then show ?thesis by (simp add: entry_tabulate)
  qed
  show thesis using that[of ?r] 1 2 by simp
qed

lemma reshape_merge_props:
  assumes "shape a = [B, S, H, K, 2]" "0 < B" "0 < S" "0 < H"
  shows "reshape_infer_last a (butlast (butlast (shape a))) = Inr (a\<lparr>shape := [B, S, H, 2 * K]\<rparr>)"
    and "entry (a\<lparr>shape := [B, S, H, 2 * K]\<rparr>) [b, s, h, 2 * k] = entry a [b, s, h, k, 0]"
    and "entry (a\<lparr>shape := [B, S, H, 2 * K]\<rparr>) [b, s, h, 2 * k + 1] = entry a [b, s, h, k, 1]"
proof -
  have "B * S * H * K * 2 div (B * S * H) = 2 * K" using assms(2-4) by simp
  then show "reshape_infer_last a (butlast (butlast (shape a))) = Inr (a\<lparr>shape := [B, S, H, 2 * K]\<rparr>)"
    using assms by (simp add: reshape_infer_last_def Let_def mult.assoc)
  show "entry (a\<lparr>shape := [B, S, H, 2 * K]\<rparr>) [b, s, h, 2 * k] = entry a [b, s, h, k, 0]"
    by (simp add: entry_def assms(1) algebra_simps)
  show "entry (a\<lparr>shape := [B, S, H, 2 * K]\<rparr>) [b, s, h, 2 * k + 1] = entry a [b, s, h, k, 1]"
    by (simp add: entry_def assms(1) algebra_simps)
qed

lemma apply_rope_result:
  assumes x: "shape x = [B, S, H, 2 * K]" and p: "shape position = [B, S]"
    and pos: "0 < B" "0 < S" "0 < H"
  obtains y where "apply_rope x position base = Inr y"
    "shape y = [B, S, H, 2 * K]" "dtype y = Float32" "well_formed y"
    "\<And>b s h k. b < B \<Longrightarrow> s < S \<Longrightarrow> h < H \<Longrightarrow> k < K \<Longrightarrow>
       entry y [b, s, h, 2 * k] =
         entry x [b, s, h, 2 * k] * cos (rope_angle position base (2 * K) b s k)
         - entry x [b, s, h, 2 * k + 1] * sin (rope_angle position base (2 * K) b s k)"
    "\<And>b s h k. b < B \<Longrightarrow> s < S \<Longrightarrow> h < H \<Longrightarrow> k < K \<Longrightarrow>
       entry y [b, s, h, 2 * k + 1] =
         entry x [b, s, h, 2 * k + 1] * cos (rope_angle position base (2 * K) b s k)
         + entry x [b, s, h, 2 * k] * sin (rope_angle position base (2 * K) b s k)"
proof -
  let ?D = "2 * K"
  obtain f0 freq where f0: "multiply (expand_last position) (rope_timescale base ?D) = Inr f0"
    and freq: "expand_before_last f0 = Inr freq"
    "shape freq = [B, S, 1, K]" "dtype freq = Float32" "well_formed freq"
    "\<And>b s k. b < B \<Longrightarrow> s < S \<Longrightarrow> k < K \<Longrightarrow>
       entry freq [b, s, 0, k] = rope_angle position base ?D b s k"
    using p by (rule rope_angles[where base = base and D = ?D]) (simp add: rope_angle_def)
  let ?c = "cos_arr freq" and ?s = "sin_arr freq"
  let ?e = "slice_last 0 2 x" and ?o = "slice_last 1 2 x"
  have shc: "shape ?c = [B, S, 1, K]" "shape ?s = [B, S, 1, K]"
    and dtc: "dtype ?c = Float32" "dtype ?s = Float32"
    by (simp_all add: cos_arr_def sin_arr_def freq)
  have enc: "entry ?c [b, s, 0, k] = cos (rope_angle position base ?D b s k)"
       "entry ?s [b, s, 0, k] = sin (rope_angle position base ?D b s k)"
    if "b < B" "s < S" "k < K" for b s k
    using that freq by (simp_all add: entry_cos_arr entry_sin_arr)
  note e = slice_even_props[OF x] and o = slice_odd_props[OF x]
  obtain ec where ec: "multiply ?e ?c = Inr ec" "shape ec = [B, S, H, K]"
    "dtype ec = promote (dtype ?e) (dtype ?c)" "well_formed ec"
    "\<And>b s h k. b < B \<Longrightarrow> s < S \<Longrightarrow> h < H \<Longrightarrow> k < K \<Longrightarrow>
       entry ec [b, s, h, k] = entry ?e [b, s, h, k] * entry ?c [b, s, 0, k]"
    unfolding multiply_def using e(1) shc(1) by (rule binary_op_heads[where f = "(*)"]) blast
  obtain os where os: "multiply ?o ?s = Inr os" "shape os = [B, S, H, K]"
    "dtype os = promote (dtype ?o) (dtype ?s)" "well_formed os"
    "\<And>b s h k. b < B \<Longrightarrow> s < S \<Longrightarrow> h < H \<Longrightarrow> k < K \<Longrightarrow>
       entry os [b, s, h, k] = entry ?o [b, s, h, k] * entry ?s [b, s, 0, k]"
    unfolding multiply_def using o(1) shc(2) by (rule binary_op_heads[where f = "(*)"]) blast
  obtain ne where ne: "subtract ec os = Inr ne" "shape ne = [B, S, H, K]"
    "dtype ne = promote (dtype ec) (dtype os)" "well_formed ne"
    "\<And>idx. in_bounds [B, S, H, K] idx \<Longrightarrow> entry ne idx = entry ec idx - entry os idx"
    unfolding subtract_def using ec(2) os(2) by (rule binary_op_same[where f = "(-)"]) blast
  obtain oc where oc: "multiply ?o ?c = Inr oc" "shape oc = [B, S, H, K]"
    "dtype oc = promote (dtype ?o) (dtype ?c)" "well_formed oc"
    "\<And>b s h k. b < B \<Longrightarrow> s < S \<Longrightarrow> h < H \<Longrightarrow> k < K \<Longrightarrow>
       entry oc [b, s, h, k] = entry ?o [b, s, h, k] * entry ?c [b, s, 0, k]"
    unfolding multiply_def using o(1) shc(1) by (rule binary_op_heads[where f = "(*)"]) blast
  obtain es where es: "multiply ?e ?s = Inr es" "shape es = [B, S, H, K]"
    "dtype es = promote (dtype ?e) (dtype ?s)" "well_formed es"
    "\<And>b s h k. b < B \<Longrightarrow> s < S \<Longrightarrow> h < H \<Longrightarrow> k < K \<Longrightarrow>
       entry es [b, s, h, k] = entry ?e [b, s, h, k] * entry ?s [b, s, 0, k]"
    unfolding multiply_def using e(1) shc(2) by (rule binary_op_heads[where f = "(*)"]) blast
  obtain no where no: "add oc es = Inr no" "shape no = [B, S, H, K]"
    "dtype no = promote (dtype oc) (dtype es)" "well_formed no"
    "\<And>idx. in_bounds [B, S, H, K] idx \<Longrightarrow> entry no idx = entry oc idx + entry es idx"
    unfolding add_def using oc(2) es(2) by (rule binary_op_same[where f = "(+)"]) blast
  obtain st where st: "stack_last ne no = Inr st" "shape st = [B, S, H, K, 2]"
    "dtype st = promote (dtype ne) (dtype no)" "well_formed st"
    "\<And>b s h k. b < B \<Longrightarrow> s < S \<Longrightarrow> h < H \<Longrightarrow> k < K \<Longrightarrow>
       entry st [b, s, h, k, 0] = entry ne [b, s, h, k] \<and>
       entry st [b, s, h, k, 1] = entry no [b, s, h, k]"
    using ne(2) no(2) by (rule stack_last_props) blast
  let ?y = "st\<lparr>shape := [B, S, H, 2 * K]\<rparr>"
  note rs = reshape_merge_props[OF st(2) pos]
  have hd: "shape x \<noteq> []" "last (shape x) = ?D" using x by simp_all
  have run: "apply_rope x position base = Inr ?y"
    unfolding apply_rope_def Let_def using hd
    by (simp del: One_nat_def add: f0 freq(1) ec(1) os(1) ne(1) oc(1) es(1) no(1) st(1) rs(1))
  have dt: "dtype ?y = Float32"
    by (simp add: st(3) ne(3) no(3) ec(3) os(3) oc(3) es(3) dtc)
  have wf: "well_formed ?y" using st(2,4) by (simp add: well_formed_def algebra_simps)
  have even_entry: "entry ?y [b, s, h, 2 * k] =
         entry x [b, s, h, 2 * k] * cos (rope_angle position base ?D b s k)
         - entry x [b, s, h, 2 * k + 1] * sin (rope_angle position base ?D b s k)"
    if "b < B" "s < S" "h < H" "k < K" for b s h k
  proof -
    have "in_bounds [B, S, H, K] [b, s, h, k]" using that by simp
    then have "entry ne [b, s, h, k] = entry ec [b, s, h, k] - entry os [b, s, h, k]"
      by (rule ne(5))
    then show ?thesis
      using that by (simp del: One_nat_def add: rs(2) st(5) ec(5) os(5) e(4) o(4) enc)
  qed
  have odd_entry: "entry ?y [b, s, h, 2 * k + 1] =
         entry x [b, s, h, 2 * k + 1] * cos (rope_angle position base ?D b s k)
         + entry x [b, s, h, 2 * k] * sin (rope_angle position base ?D b s k)"
    if "b < B" "s < S" "h < H" "k < K" for b s h k
  proof -
    have "in_bounds [B, S, H, K] [b, s, h, k]" using that by simp
    then have "entry no [b, s, h, k] = entry oc [b, s, h, k] + entry es [b, s, h, k]"
      by (rule no(5))
    then show ?thesis
      using that rs(3)[of b s h k] st(5)[of b s h k]
      by (simp del: One_nat_def add: oc(5) es(5) e(4) o(4) enc)
  qed
  show thesis using that[of ?y] run dt wf even_entry odd_entry by simp
qed

lemma in_bounds_4:
  "in_bounds [B, S, H, D] idx \<longleftrightarrow>
     (\<exists>b s h d. idx = [b, s, h, d] \<and> b < B \<and> s < S \<and> h < H \<and> d < D)"
proof (cases idx)
  case (Cons b i1)
  then show ?thesis
  proof (cases i1)
    case (Cons s i2)
    then show ?thesis using \<open>idx = b # i1\<close>
    proof (cases i2)
      case (Cons h i3)
      then show ?thesis using \<open>idx = b # i1\<close> \<open>i1 = s # i2\<close>
        by (cases i3; cases "tl i3") auto
    qed simp
  qed simp
qed simp

lemma in_bounds_2:
  "in_bounds [B, S] idx \<longleftrightarrow> (\<exists>b s. idx = [b, s] \<and> b < B \<and> s < S)"
  by (cases idx; cases "tl idx"; cases "tl (tl idx)") auto

lemma ext_pairs:
  assumes "well_formed a" "well_formed c"
    and "shape a = [B, S, H, 2 * K]" "shape c = [B, S, H, 2 * K]"
    and eq: "\<And>b s h k. b < B \<Longrightarrow> s < S \<Longrightarrow> h < H \<Longrightarrow> k < K \<Longrightarrow>
       entry a [b, s, h, 2 * k] = entry c [b, s, h, 2 * k] \<and>
       entry a [b, s, h, 2 * k + 1] = entry c [b, s, h, 2 * k + 1]"
  shows "elems a = elems c"
proof (rule array_ext)
  show "well_formed a" "well_formed c" "shape a = shape c" using assms by simp_all
next
  fix idx assume "in_bounds (shape a) idx"
  then obtain b s h d where idx: "idx = [b, s, h, d]" and r: "b < B" "s < S" "h < H" "d < 2 * K"
    unfolding assms(3) in_bounds_4 by blast
  define k where "k = d div 2"
  have k: "k < K" using r(4) by (simp add: k_def)
  have "d = 2 * k \<or> d = 2 * k + 1" unfolding k_def by presburger
  then show "entry a idx = entry c idx" using eq[OF r(1-3) k] idx by auto
qed

lemma apply_rope_even:
  assumes x: "shape x = [B, S, H, D]" and D: "even D" and p: "shape position = [B, S]"
    and pos: "0 < B" "0 < S" "0 < H"
  obtains y where "apply_rope x position base = Inr y"
    "shape y = [B, S, H, D]" "dtype y = Float32" "well_formed y"
    "\<And>b s h k. b < B \<Longrightarrow> s < S \<Longrightarrow> h < H \<Longrightarrow> k < D div 2 \<Longrightarrow>
       entry y [b, s, h, 2 * k] =
         entry x [b, s, h, 2 * k] * cos (rope_angle position base D b s k)
         - entry x [b, s, h, 2 * k + 1] * sin (rope_angle position base D b s k)"
    "\<And>b s h k. b < B \<Longrightarrow> s < S \<Longrightarrow> h < H \<Longrightarrow> k < D div 2 \<Longrightarrow>
       entry y [b, s, h, 2 * k + 1] =
         entry x [b, s, h, 2 * k + 1] * cos (rope_angle position base D b s k)
         + entry x [b, s, h, 2 * k] * sin (rope_angle position base D b s k)"
proof -
  from D obtain K where K: "D = 2 * K" by (auto elim: evenE)
  have dv: "D div 2 = K" using K by simp
  show thesis
    using apply_rope_result[OF x[unfolded K] p pos, of base] that unfolding K[symmetric] dv
    by blast
qed

section \<open>The function on concrete arrays\<close>

text \<open>
  The definitions evaluate: the unit vector \<open>(1, 0)\<close> at position 0 is returned
  unchanged, and at position \<open>\<pi>/2\<close> (with \<open>timescale[0] = 1\<close>) it is turned into \<open>(0, 1)\<close>.
\<close>

lemmas rope_defs = apply_rope_def rope_timescale_def rope_power_def scalar_pow_def
  true_divide_scalar_def scalar_mul_def arange_def multiply_def subtract_def add_def
  binary_op_def broadcast_shapes_def broadcast_index_def expand_last_def
  expand_before_last_def cos_arr_def sin_arr_def slice_last_def stack_last_def
  reshape_infer_last_def tabulate_def entry_def Let_def

lemma apply_rope_at_position_zero:
  "apply_rope x_unit position_int32 DEFAULT_BASE
     = Inr \<lparr>dtype = Float32, shape = [1, 1, 1, 2], elems = [1, 0]\<rparr>"
  by (simp add: rope_defs x_unit_def position_int32_def DEFAULT_BASE_def upt_rec)

lemma apply_rope_at_quarter_turn:
  "apply_rope x_unit position_quarter DEFAULT_BASE
     = Inr \<lparr>dtype = Float32, shape = [1, 1, 1, 2], elems = [0, 1]\<rparr>"
  by (simp add: rope_defs x_unit_def position_quarter_def DEFAULT_BASE_def upt_rec)

section \<open>The rotation\<close>



section \<open>Shape\<close>

text \<open>
  When no leading axis of \<open>x\<close> is empty, \<open>D\<close> is even and the positions have shape
  \<open>(B, S)\<close>, the result has exactly the shape of \<open>x\<close>. The base plays no role; the default
  base is one instance.
\<close>

lemma apply_rope_preserves_shape:
  assumes "shape x = [B, S, H, D]" and "even D" and "shape position = [B, S]"
    and "0 < B" and "0 < S" and "0 < H"
  shows "\<exists>y. apply_rope x position base = Inr y \<and> shape y = shape x"
proof -
  obtain y where "apply_rope x position base = Inr y" "shape y = [B, S, H, D]"
    using assms by (rule apply_rope_even[where base = base]) blast
  then show ?thesis using assms(1) by (intro exI[of _ y]) simp
qed

lemma apply_rope_preserves_shape_witness:
  "\<exists>y. apply_rope x_unit position_quarter DEFAULT_BASE = Inr y \<and> shape y = [1, 1, 1, 2]"
proof -
  have sh: "shape x_unit = [1, 1, 1, 2]" "shape position_quarter = [1, 1]"
    by (simp_all add: x_unit_def position_quarter_def)
  show ?thesis
    using apply_rope_preserves_shape[of x_unit 1 1 1 2 position_quarter DEFAULT_BASE]
    unfolding sh by simp
qed

text \<open>
  C2. For every input \<open>x\<close> of shape \<open>(B, S, H, D)\<close> with \<open>D\<close> even and every position array of
  shape \<open>(B, S)\<close> the result is to have the shape of \<open>x\<close>, as the docstring of the function
  also says. On an input with an empty batch axis, of shape \<open>(0, 1, 1, 2)\<close>, the function
  returns no array: the last statement \<^verbatim>\<open>stacked.reshape(*stacked.shape[:-2], -1)\<close> has to
  divide the size 0 of the array by the product 0 of the leading axes, and fails.
\<close>

theorem apply_rope_empty_batch_no_shape:
  "well_formed x_empty_batch \<and> shape x_empty_batch = [0, 1, 1, 2] \<and>
   well_formed position_empty_batch \<and> shape position_empty_batch = [0, 1] \<and>
   apply_rope x_empty_batch position_empty_batch DEFAULT_BASE = Inl ReshapeError"
  by (simp add: rope_defs x_empty_batch_def position_empty_batch_def well_formed_def
        DEFAULT_BASE_def upt_rec)

section \<open>The precondition\<close>

lemma bind_not_assertion:
  assumes "m \<noteq> Inl AssertionError" and "\<And>v. f v \<noteq> Inl AssertionError"
  shows "bind m f \<noteq> Inl AssertionError"
  using assms by (cases m) (simp_all add: bind_def)

lemma binary_op_not_assertion: "binary_op f a c \<noteq> Inl AssertionError"
  by (simp add: binary_op_def split: option.splits)

lemma library_not_assertion:
  "multiply a c \<noteq> Inl AssertionError"
  "subtract a c \<noteq> Inl AssertionError"
  "add a c \<noteq> Inl AssertionError"
  "stack_last a c \<noteq> Inl AssertionError"
  "expand_before_last a \<noteq> Inl AssertionError"
  "reshape_infer_last a lead \<noteq> Inl AssertionError"
  by (simp_all add: multiply_def subtract_def add_def binary_op_not_assertion stack_last_def
        expand_before_last_def reshape_infer_last_def Let_def)

text \<open>
  C3. When the last dimension of \<open>x\<close> is odd the call fails on the assertion, before any
  array is computed; and the assertion failure, the only failure that \<open>apply_rope\<close> raises
  itself, occurs if and only if the last dimension is odd. Every other failure comes
  from an operation of the array library.
\<close>

theorem apply_rope_assertion_iff_odd:
  assumes "shape x \<noteq> []"
  shows "apply_rope x position base = Inl AssertionError \<longleftrightarrow> odd (last (shape x))"
proof (cases "odd (last (shape x))")
  case True
  then have "last (shape x) mod 2 \<noteq> 0" by presburger
  then show ?thesis using assms True by (simp add: apply_rope_def)
next
  case False
  then have ev: "last (shape x) mod 2 = 0" by presburger
  have "apply_rope x position base \<noteq> Inl AssertionError"
    unfolding apply_rope_def Let_def using assms ev
    by (simp del: One_nat_def) (intro bind_not_assertion library_not_assertion)
  then show ?thesis using False by simp
qed

theorem apply_rope_assertion_iff_odd_witness:
  "apply_rope x_odd_dim position_quarter DEFAULT_BASE = Inl AssertionError"
proof -
  have "shape x_odd_dim \<noteq> []" "odd (last (shape x_odd_dim))"
    by (simp_all add: x_odd_dim_def)
  then show ?thesis
    using apply_rope_assertion_iff_odd[of x_odd_dim position_quarter DEFAULT_BASE] by blast
qed

section \<open>Norm of a rotated pair\<close>

lemma unit_rotation_norm:
  fixes a c u v :: real
  assumes "u * u + v * v = 1"
  shows "(a * v - c * u) * (a * v - c * u) + (c * v + a * u) * (c * v + a * u) = a * a + c * c"
proof -
  have "(a * v - c * u) * (a * v - c * u) + (c * v + a * u) * (c * v + a * u)
      = (a * a + c * c) * (u * u + v * v)"
    by (simp add: algebra_simps)
  then show ?thesis using assms by simp
qed

lemma rotation_norm:
  fixes a c t :: real
  shows "(a * cos t - c * sin t)\<^sup>2 + (c * cos t + a * sin t)\<^sup>2 = a\<^sup>2 + c\<^sup>2"
proof -
  have "sin t * sin t + cos t * cos t = 1"
    using sin_cos_squared_add[of t] by (simp add: power2_eq_square)
  then show ?thesis unfolding power2_eq_square by (rule unit_rotation_norm)
qed

text \<open>
  C6. For every valid input, every index \<open>(b, s, h)\<close> and every plane \<open>k\<close>, the output
  pair has the norm of the input pair:
  \<open>y[2k]\<^sup>2 + y[2k+1]\<^sup>2 = x[2k]\<^sup>2 + x[2k+1]\<^sup>2\<close>.
\<close>

theorem apply_rope_preserves_pair_norm:
  assumes "shape x = [B, S, H, D]" and "even D" and "shape position = [B, S]"
    and "0 < base"
    and "b < B" and "s < S" and "h < H" and "k < D div 2"
  shows "\<exists>y. apply_rope x position base = Inr y \<and>
           (entry y [b, s, h, 2 * k])\<^sup>2 + (entry y [b, s, h, 2 * k + 1])\<^sup>2 =
           (entry x [b, s, h, 2 * k])\<^sup>2 + (entry x [b, s, h, 2 * k + 1])\<^sup>2"
proof -
  have pos: "0 < B" "0 < S" "0 < H" using assms(5-7) by simp_all
  obtain y where y: "apply_rope x position base = Inr y"
    and ev: "\<And>b s h k. b < B \<Longrightarrow> s < S \<Longrightarrow> h < H \<Longrightarrow> k < D div 2 \<Longrightarrow>
       entry y [b, s, h, 2 * k] =
         entry x [b, s, h, 2 * k] * cos (rope_angle position base D b s k)
         - entry x [b, s, h, 2 * k + 1] * sin (rope_angle position base D b s k)"
    and od: "\<And>b s h k. b < B \<Longrightarrow> s < S \<Longrightarrow> h < H \<Longrightarrow> k < D div 2 \<Longrightarrow>
       entry y [b, s, h, 2 * k + 1] =
         entry x [b, s, h, 2 * k + 1] * cos (rope_angle position base D b s k)
         + entry x [b, s, h, 2 * k] * sin (rope_angle position base D b s k)"
    using assms(1-3) pos by (rule apply_rope_even[where base = base]) blast
  have "(entry y [b, s, h, 2 * k])\<^sup>2 + (entry y [b, s, h, 2 * k + 1])\<^sup>2 =
        (entry x [b, s, h, 2 * k])\<^sup>2 + (entry x [b, s, h, 2 * k + 1])\<^sup>2"
    unfolding ev[OF assms(5-8)] od[OF assms(5-8)] by (rule rotation_norm)
  then show ?thesis using y by (intro exI[of _ y] conjI)
qed

theorem apply_rope_preserves_pair_norm_witness:
  "\<exists>y. apply_rope x_unit position_quarter 10000 = Inr y \<and>
     (entry y [0, 0, 0, 0])\<^sup>2 + (entry y [0, 0, 0, 1])\<^sup>2 = 1"
proof -
  have sh: "shape x_unit = [1, 1, 1, 2]" "shape position_quarter = [1, 1]"
    by (simp_all add: x_unit_def position_quarter_def)
  have en: "entry x_unit [0, 0, 0, 2 * 0] = 1" "entry x_unit [0, 0, 0, 2 * 0 + 1] = 0"
    by (simp_all add: x_unit_def entry_def)
  have "\<exists>y. apply_rope x_unit position_quarter 10000 = Inr y \<and>
     (entry y [0, 0, 0, 2 * 0])\<^sup>2 + (entry y [0, 0, 0, 2 * 0 + 1])\<^sup>2 = 1\<^sup>2 + 0\<^sup>2"
    using apply_rope_preserves_pair_norm[of x_unit 1 1 1 2 position_quarter 10000 0 0 0 0]
    unfolding sh en by simp
  then show ?thesis by simp
qed

section \<open>Element type of the result\<close>

text \<open>
  C9 as stated: the result has the element type of \<open>x\<close>. It does not: the factors
  \<open>cos_freq\<close> and \<open>sin_freq\<close> are \<open>Float32\<close> arrays, and the products with a \<open>BFloat16\<close>
  input are promoted to \<open>Float32\<close>.
\<close>

theorem apply_rope_bfloat16_counterexample:
  "map_sum id dtype (apply_rope x_bfloat16 position_int32 DEFAULT_BASE) = Inr Float32
   \<and> dtype x_bfloat16 = BFloat16"
proof -
  have sh: "shape x_bfloat16 = [1, 1, 1, 2]" "even (2::nat)" "shape position_int32 = [1, 1]"
    "0 < (1::nat)"
    by (simp_all add: x_bfloat16_def position_int32_def)
  obtain y where "apply_rope x_bfloat16 position_int32 DEFAULT_BASE = Inr y" "dtype y = Float32"
    using sh(1-3) sh(4) sh(4) sh(4) by (rule apply_rope_even[where base = DEFAULT_BASE]) blast
  then show ?thesis by (simp add: x_bfloat16_def)
qed

text \<open>
  C9 as amended: for a valid input the result has element type \<open>Float32\<close>, whatever the
  element types of \<open>x\<close> and of the positions; so it has the element type of \<open>x\<close> exactly
  when \<open>x\<close> is a \<open>Float32\<close> array.
\<close>

theorem apply_rope_result_dtype:
  assumes "shape x = [B, S, H, D]" and "even D" and "shape position = [B, S]"
    and "0 < B" and "0 < S" and "0 < H"
  shows "\<exists>y. apply_rope x position base = Inr y \<and> dtype y = Float32 \<and>
           (dtype y = dtype x \<longleftrightarrow> dtype x = Float32)"
proof -
  obtain y where y: "apply_rope x position base = Inr y" "dtype y = Float32"
    using assms by (rule apply_rope_even[where base = base]) blast
  then have "dtype y = dtype x \<longleftrightarrow> dtype x = Float32" by auto
  then show ?thesis using y by (intro exI[of _ y] conjI)
qed

theorem apply_rope_result_dtype_witness:
  "\<exists>y. apply_rope x_unit position_int32 DEFAULT_BASE = Inr y \<and> dtype y = dtype x_unit"
proof -
  have sh: "shape x_unit = [1, 1, 1, 2]" "shape position_int32 = [1, 1]"
    "dtype x_unit = Float32"
    by (simp_all add: x_unit_def position_int32_def)
  show ?thesis
    using apply_rope_result_dtype[of x_unit 1 1 1 2 position_int32 DEFAULT_BASE]
    unfolding sh by simp
qed

section \<open>The timescale vector\<close>

lemma rope_power_props:
  "shape (rope_power D) = [D div 2]"
  "k < D div 2 \<Longrightarrow> entry (rope_power D) [k] = - 2 * real k / real D"
  by (simp_all add: rope_power_def true_divide_scalar_def scalar_mul_def arange_def entry_def)

lemma rope_exponent_less:
  assumes "j < k" and "0 < D"
  shows "- 2 * real k / real D < - 2 * real j / real D"
  using assms by (simp add: divide_strict_right_mono)

text \<open>
  C7. For an even \<open>D \<ge> 2\<close> and a base above 1, the exponents are \<open>power[k] = - 2k / D\<close>
  for the consecutive integers \<open>k = 0, ..., D/2 - 1\<close>, and \<open>timescale[k] = base powr power[k]\<close>
  is a strictly decreasing sequence in the interval \<open>(0, 1]\<close> that starts at
  \<open>timescale[0] = 1\<close>.
\<close>

theorem rope_timescale_decreasing:
  assumes "even D" and "2 \<le> D" and "1 < base"
  shows "shape (rope_power D) = [D div 2] \<and> shape (rope_timescale base D) = [D div 2] \<and>
    (\<forall>k < D div 2.
        entry (rope_power D) [k] = - 2 * real k / real D \<and>
        entry (rope_timescale base D) [k] = base powr (- 2 * real k / real D) \<and>
        0 < entry (rope_timescale base D) [k] \<and> entry (rope_timescale base D) [k] \<le> 1) \<and>
    entry (rope_timescale base D) [0] = 1 \<and>
    (\<forall>j k. j < k \<and> k < D div 2 \<longrightarrow>
        entry (rope_timescale base D) [k] < entry (rope_timescale base D) [j])"
proof (intro conjI allI impI)
  show "shape (rope_power D) = [D div 2]" by (rule rope_power_props)
  show "shape (rope_timescale base D) = [D div 2]" by (rule rope_timescale_props)
next
  fix k assume k: "k < D div 2"
  show "entry (rope_power D) [k] = - 2 * real k / real D" using k by (rule rope_power_props)
  show e: "entry (rope_timescale base D) [k] = base powr (- 2 * real k / real D)"
    using k by (rule rope_timescale_props)
  show "0 < entry (rope_timescale base D) [k]" unfolding e using assms(3) by simp
  have "base powr (- 2 * real k / real D) \<le> base powr 0"
    using assms(3) by (intro powr_mono) simp_all
  then show "entry (rope_timescale base D) [k] \<le> 1" unfolding e using assms(3) by simp
next
  have "0 < D div 2" using assms(2) by simp
  then have "entry (rope_timescale base D) [0] = base powr (- 2 * real 0 / real D)"
    by (rule rope_timescale_props)
  then show "entry (rope_timescale base D) [0] = 1" using assms(3) by simp
next
  fix j k assume jk: "j < k \<and> k < D div 2"
  then have j: "j < D div 2" and k: "k < D div 2" by simp_all
  have "0 < D" using assms(2) by simp
  then have "- 2 * real k / real D < - 2 * real j / real D"
    using jk by (intro rope_exponent_less) simp_all
  then have "base powr (- 2 * real k / real D) < base powr (- 2 * real j / real D)"
    using assms(3) by (rule powr_less_mono)
  then show "entry (rope_timescale base D) [k] < entry (rope_timescale base D) [j]"
    by (simp only: rope_timescale_props(3)[OF j] rope_timescale_props(3)[OF k])
qed

theorem rope_timescale_decreasing_witness:
  "entry (rope_timescale 10000 4) [0] = 1 \<and>
   entry (rope_timescale 10000 4) [1] < entry (rope_timescale 10000 4) [0] \<and>
   0 < entry (rope_timescale 10000 4) [1]"
proof -
  have h: "even (4::nat)" "2 \<le> (4::nat)" "1 < (10000::real)" by simp_all
  note t = rope_timescale_decreasing[OF h]
  have "(0::nat) < 1 \<and> (1::nat) < 4 div 2" by simp
  then have "entry (rope_timescale 10000 4) [1] < entry (rope_timescale 10000 4) [0]"
    using t by blast
  moreover have "(1::nat) < 4 div 2" by simp
  then have "0 < entry (rope_timescale 10000 4) [1]" using t by blast
  ultimately show ?thesis using t by blast
qed

text \<open>
  C8. For an even \<open>D \<ge> 4\<close> and bases \<open>1 < b1 < b2\<close>, the larger base gives the strictly
  smaller \<open>timescale[k]\<close> in every plane \<open>k \<ge> 1\<close>, while \<open>timescale[0] = 1\<close> for both;
  so at a nonzero position \<open>p\<close> the angle \<open>p * timescale[k]\<close> is strictly smaller in
  magnitude for the larger base.
\<close>

theorem rope_timescale_base_sensitivity:
  assumes "even D" and "4 \<le> D" and "1 < b1" and "b1 < b2" and "1 \<le> k" and "k < D div 2"
  shows "entry (rope_timescale b2 D) [k] < entry (rope_timescale b1 D) [k] \<and>
    entry (rope_timescale b1 D) [0] = 1 \<and> entry (rope_timescale b2 D) [0] = 1 \<and>
    (\<forall>p. p \<noteq> 0 \<longrightarrow>
        \<bar>p * entry (rope_timescale b2 D) [k]\<bar> < \<bar>p * entry (rope_timescale b1 D) [k]\<bar>)"
proof -
  have D: "0 < D" "0 < D div 2" using assms(2) by simp_all
  have neg: "- 2 * real k / real D < 0" using assms(5) D(1) by simp
  have lt: "b2 powr (- 2 * real k / real D) < b1 powr (- 2 * real k / real D)"
    using neg assms(3,4) by (intro powr_less_mono2_neg) simp_all
  have e1: "entry (rope_timescale b1 D) [k] = b1 powr (- 2 * real k / real D)"
    and e2: "entry (rope_timescale b2 D) [k] = b2 powr (- 2 * real k / real D)"
    using assms(6) by (rule rope_timescale_props)+
  have z1: "entry (rope_timescale b1 D) [0] = 1"
    using rope_timescale_props(3)[OF D(2), of b1] assms(3) by simp
  have z2: "entry (rope_timescale b2 D) [0] = 1"
    using rope_timescale_props(3)[OF D(2), of b2] assms(3,4) by simp
  have ang: "\<bar>p * entry (rope_timescale b2 D) [k]\<bar> < \<bar>p * entry (rope_timescale b1 D) [k]\<bar>"
    if "p \<noteq> 0" for p :: real
  proof -
    have "0 < b2 powr (- 2 * real k / real D)" using assms(3,4) by simp
    then have "\<bar>p\<bar> * b2 powr (- 2 * real k / real D) < \<bar>p\<bar> * b1 powr (- 2 * real k / real D)"
      using lt that by simp
    then show ?thesis unfolding e1 e2 abs_mult by simp
  qed
  show ?thesis using lt z1 z2 ang unfolding e1 e2 by blast
qed

theorem rope_timescale_base_sensitivity_witness:
  "entry (rope_timescale 10000 4) [1] < entry (rope_timescale 100 4) [1] \<and>
   \<bar>3 * entry (rope_timescale 10000 4) [1]\<bar> < \<bar>3 * entry (rope_timescale 100 4) [1]\<bar>"
proof -
  have h: "even (4::nat)" "4 \<le> (4::nat)" "1 < (100::real)" "(100::real) < 10000"
    "1 \<le> (1::nat)" "(1::nat) < 4 div 2" by simp_all
  note t = rope_timescale_base_sensitivity[OF h]
  have "(3::real) \<noteq> 0" by simp
  then show ?thesis using t by blast
qed

section \<open>Angles of derived position arrays\<close>

lemma position_index_less:
  assumes "well_formed p" and "shape p = [B, S]" and "b < B" and "s < S"
  shows "ravel (shape p) [b, s] < length (elems p)"
proof -
  have "in_bounds (shape p) [b, s]" using assms by simp
  then have "ravel (shape p) [b, s] < prod_list (shape p)" by (rule ravel_less)
  then show ?thesis using assms(1) by (simp add: well_formed_def)
qed

lemma entry_full:
  assumes "b < B" and "s < S"
  shows "entry (full t [B, S] v) [b, s] = v"
proof -
  have "in_bounds [B, S] [b, s]" using assms by simp
  then have "ravel [B, S] [b, s] < prod_list [B, S]" by (rule ravel_less)
  then show ?thesis by (simp add: entry_def full_def)
qed

lemma full_props:
  "shape (full t sh v) = sh" "well_formed (full t sh v)" "dtype (full t sh v) = t"
  by (simp_all add: full_def well_formed_def)

lemma add_scalar_props:
  "shape (add_scalar p c) = shape p"
  "well_formed p \<Longrightarrow> well_formed (add_scalar p c)"
  by (simp_all add: add_scalar_def well_formed_def)

lemma entry_add_scalar:
  assumes "well_formed p" and "shape p = [B, S]" and "b < B" and "s < S"
  shows "entry (add_scalar p c) [b, s] = entry p [b, s] + c"
  using position_index_less[OF assms] by (simp add: entry_def add_scalar_def)

lemma negative_props:
  "shape (negative p) = shape p"
  "well_formed p \<Longrightarrow> well_formed (negative p)"
  by (simp_all add: negative_def well_formed_def)

lemma entry_negative:
  assumes "well_formed p" and "shape p = [B, S]" and "b < B" and "s < S"
  shows "entry (negative p) [b, s] = - entry p [b, s]"
  using position_index_less[OF assms] by (simp add: entry_def negative_def)

lemma add_positions:
  assumes "shape p = [B, S]" and "shape q = [B, S]"
  obtains pq where "add p q = Inr pq" "shape pq = [B, S]" "well_formed pq"
    "\<And>b s. b < B \<Longrightarrow> s < S \<Longrightarrow> entry pq [b, s] = entry p [b, s] + entry q [b, s]"
proof -
  obtain r where r: "binary_op (+) p q = Inr r" "shape r = [B, S]" "well_formed r"
    and en: "\<And>idx. in_bounds [B, S] idx \<Longrightarrow> entry r idx = entry p idx + entry q idx"
    using assms by (rule binary_op_same[where f = "(+)"]) blast
  have "entry r [b, s] = entry p [b, s] + entry q [b, s]" if "b < B" "s < S" for b s
    using that by (intro en) simp
  then show thesis using that[of r] r by (simp add: add_def)
qed

lemma rope_angle_full: "b < B \<Longrightarrow> s < S \<Longrightarrow>
    rope_angle (full t [B, S] v) base D b s k = v * base powr (- 2 * real k / real D)"
  by (simp add: rope_angle_def entry_full)

lemma rope_angle_add_scalar:
  assumes "well_formed p" and "shape p = [B, S]" and "b < B" and "s < S"
  shows "rope_angle (add_scalar p c) base D b s k =
           rope_angle p base D b s k + c * base powr (- 2 * real k / real D)"
  by (simp add: rope_angle_def entry_add_scalar[OF assms] algebra_simps)

lemma rope_angle_negative:
  assumes "well_formed p" and "shape p = [B, S]" and "b < B" and "s < S"
  shows "rope_angle (negative p) base D b s k = - rope_angle p base D b s k"
  by (simp add: rope_angle_def entry_negative[OF assms])

section \<open>Position zero\<close>

text \<open>
  When no leading axis of \<open>x\<close> is empty and \<open>D\<close> is even, the all-zero position array of
  shape \<open>(B, S)\<close> leaves the values of \<open>x\<close> unchanged, in the shape of \<open>x\<close>: every angle is
  0, and \<open>cos 0 = 1\<close>, \<open>sin 0 = 0\<close>. This holds for every positive base, the default one
  included.
\<close>

lemma apply_rope_zero_position_identity:
  assumes "well_formed x" and "shape x = [B, S, H, D]" and "even D"
    and "0 < B" and "0 < S" and "0 < H" and "0 < base"
  shows "\<exists>y. apply_rope x (full t [B, S] 0) base = Inr y \<and>
           shape y = shape x \<and> elems y = elems x"
proof -
  from assms(3) obtain K where K: "D = 2 * K" by (auto elim: evenE)
  have dv: "D div 2 = K" using K by simp
  obtain y where y: "apply_rope x (full t [B, S] 0) base = Inr y"
      "shape y = [B, S, H, D]" "well_formed y"
    and ev: "\<And>b s h k. b < B \<Longrightarrow> s < S \<Longrightarrow> h < H \<Longrightarrow> k < D div 2 \<Longrightarrow>
       entry y [b, s, h, 2 * k] =
         entry x [b, s, h, 2 * k] * cos (rope_angle (full t [B, S] 0) base D b s k)
         - entry x [b, s, h, 2 * k + 1] * sin (rope_angle (full t [B, S] 0) base D b s k)"
    and od: "\<And>b s h k. b < B \<Longrightarrow> s < S \<Longrightarrow> h < H \<Longrightarrow> k < D div 2 \<Longrightarrow>
       entry y [b, s, h, 2 * k + 1] =
         entry x [b, s, h, 2 * k + 1] * cos (rope_angle (full t [B, S] 0) base D b s k)
         + entry x [b, s, h, 2 * k] * sin (rope_angle (full t [B, S] 0) base D b s k)"
    using assms(2,3) full_props(1) assms(4-6)
    by (rule apply_rope_even[where base = base]) blast
  have "elems y = elems x"
  proof (rule ext_pairs)
    show "well_formed y" "well_formed x" by (rule y(3), rule assms(1))
    show "shape y = [B, S, H, 2 * K]" "shape x = [B, S, H, 2 * K]"
      using y(2) assms(2) K by simp_all
  next
    fix b s h k assume r: "b < B" "s < S" "h < H" "k < K"
    then have k: "k < D div 2" using dv by simp
    have z: "rope_angle (full t [B, S] 0) base D b s k = 0"
      using r(1,2) by (simp add: rope_angle_full)
    show "entry y [b, s, h, 2 * k] = entry x [b, s, h, 2 * k] \<and>
          entry y [b, s, h, 2 * k + 1] = entry x [b, s, h, 2 * k + 1]"
      using ev[OF r(1-3) k] od[OF r(1-3) k] unfolding z by simp
  qed
  then show ?thesis using y assms(2) by (intro exI[of _ y]) simp
qed

lemma apply_rope_zero_position_identity_witness:
  "\<exists>y. apply_rope x_unit (full Int32 [1, 1] 0) DEFAULT_BASE = Inr y \<and>
     shape y = [1, 1, 1, 2] \<and> elems y = [1, 0]"
proof -
  have h: "well_formed x_unit" "shape x_unit = [1, 1, 1, 2]" "even (2::nat)" "0 < (1::nat)"
    by (simp_all add: x_unit_def well_formed_def)
  have e: "elems x_unit = [1, 0]" by (simp add: x_unit_def)
  have b: "0 < DEFAULT_BASE" by (simp add: DEFAULT_BASE_def)
  show ?thesis
    using apply_rope_zero_position_identity[OF h(1-3) h(4) h(4) h(4) b, of Int32]
    unfolding h(2) e .
qed

text \<open>
  C4. For every \<open>x\<close> of shape \<open>(B, S, H, D)\<close> with \<open>D\<close> even, \<open>apply_rope(x, zeros)\<close> is to be
  \<open>x\<close>. On an input with an empty sequence axis, of shape \<open>(2, 0, 1, 2)\<close>, and the all-zero
  positions of shape \<open>(2, 0)\<close> the function returns no array: the last \<^verbatim>\<open>reshape\<close> fails
  as it does for the empty batch.
\<close>

theorem apply_rope_zero_position_empty_sequence:
  "well_formed x_empty_sequence \<and> shape x_empty_sequence = [2, 0, 1, 2] \<and>
   shape (full Int32 [2, 0] 0) = [2, 0] \<and> elems (full Int32 [2, 0] 0) = [] \<and>
   apply_rope x_empty_sequence (full Int32 [2, 0] 0) DEFAULT_BASE = Inl ReshapeError"
  by (simp add: rope_defs x_empty_sequence_def full_def well_formed_def
        DEFAULT_BASE_def upt_rec)

section \<open>Composition of rotations\<close>

lemma rotation_compose:
  fixes a c f g :: real
  shows "(a * cos f - c * sin f) * cos g - (c * cos f + a * sin f) * sin g
           = a * cos (f + g) - c * sin (f + g)"
    and "(c * cos f + a * sin f) * cos g + (a * cos f - c * sin f) * sin g
           = c * cos (f + g) + a * sin (f + g)"
  by (simp_all add: cos_add sin_add algebra_simps)

lemma apply_rope_twice:
  assumes x: "shape x = [B, S, H, D]" and D: "even D"
    and p: "shape p = [B, S]" and q: "shape q = [B, S]"
    and pos: "0 < B" "0 < S" "0 < H"
  obtains y1 y2 where "apply_rope x p base = Inr y1" "apply_rope y1 q base = Inr y2"
    "shape y2 = [B, S, H, D]" "dtype y2 = Float32" "well_formed y2"
    "\<And>b s h k. b < B \<Longrightarrow> s < S \<Longrightarrow> h < H \<Longrightarrow> k < D div 2 \<Longrightarrow>
       entry y2 [b, s, h, 2 * k] =
         entry x [b, s, h, 2 * k] * cos (rope_angle p base D b s k + rope_angle q base D b s k)
         - entry x [b, s, h, 2 * k + 1] * sin (rope_angle p base D b s k + rope_angle q base D b s k)"
    "\<And>b s h k. b < B \<Longrightarrow> s < S \<Longrightarrow> h < H \<Longrightarrow> k < D div 2 \<Longrightarrow>
       entry y2 [b, s, h, 2 * k + 1] =
         entry x [b, s, h, 2 * k + 1] * cos (rope_angle p base D b s k + rope_angle q base D b s k)
         + entry x [b, s, h, 2 * k] * sin (rope_angle p base D b s k + rope_angle q base D b s k)"
proof -
  obtain y1 where y1: "apply_rope x p base = Inr y1" "shape y1 = [B, S, H, D]"
    and ev1: "\<And>b s h k. b < B \<Longrightarrow> s < S \<Longrightarrow> h < H \<Longrightarrow> k < D div 2 \<Longrightarrow>
       entry y1 [b, s, h, 2 * k] =
         entry x [b, s, h, 2 * k] * cos (rope_angle p base D b s k)
         - entry x [b, s, h, 2 * k + 1] * sin (rope_angle p base D b s k)"
    and od1: "\<And>b s h k. b < B \<Longrightarrow> s < S \<Longrightarrow> h < H \<Longrightarrow> k < D div 2 \<Longrightarrow>
       entry y1 [b, s, h, 2 * k + 1] =
         entry x [b, s, h, 2 * k + 1] * cos (rope_angle p base D b s k)
         + entry x [b, s, h, 2 * k] * sin (rope_angle p base D b s k)"
    using x D p pos by (rule apply_rope_even[where base = base]) blast
  obtain y2 where y2: "apply_rope y1 q base = Inr y2" "shape y2 = [B, S, H, D]"
      "dtype y2 = Float32" "well_formed y2"
    and ev2: "\<And>b s h k. b < B \<Longrightarrow> s < S \<Longrightarrow> h < H \<Longrightarrow> k < D div 2 \<Longrightarrow>
       entry y2 [b, s, h, 2 * k] =
         entry y1 [b, s, h, 2 * k] * cos (rope_angle q base D b s k)
         - entry y1 [b, s, h, 2 * k + 1] * sin (rope_angle q base D b s k)"
    and od2: "\<And>b s h k. b < B \<Longrightarrow> s < S \<Longrightarrow> h < H \<Longrightarrow> k < D div 2 \<Longrightarrow>
       entry y2 [b, s, h, 2 * k + 1] =
         entry y1 [b, s, h, 2 * k + 1] * cos (rope_angle q base D b s k)
         + entry y1 [b, s, h, 2 * k] * sin (rope_angle q base D b s k)"
    using y1(2) D q pos by (rule apply_rope_even[where base = base]) blast
  have e: "entry y2 [b, s, h, 2 * k] =
         entry x [b, s, h, 2 * k] * cos (rope_angle p base D b s k + rope_angle q base D b s k)
         - entry x [b, s, h, 2 * k + 1] * sin (rope_angle p base D b s k + rope_angle q base D b s k)"
    if "b < B" "s < S" "h < H" "k < D div 2" for b s h k
    unfolding ev2[OF that] ev1[OF that] od1[OF that] by (rule rotation_compose)
  have o: "entry y2 [b, s, h, 2 * k + 1] =
         entry x [b, s, h, 2 * k + 1] * cos (rope_angle p base D b s k + rope_angle q base D b s k)
         + entry x [b, s, h, 2 * k] * sin (rope_angle p base D b s k + rope_angle q base D b s k)"
    if "b < B" "s < S" "h < H" "k < D div 2" for b s h k
    unfolding od2[OF that] ev1[OF that] od1[OF that] by (rule rotation_compose)
  show thesis using that[of y1 y2] y1(1) y2 e o by blast
qed

text \<open>
  When no leading axis of \<open>x\<close> is empty: for position arrays \<open>p\<close> and \<open>q\<close> of shape \<open>(B, S)\<close>
  and a positive base, rotating at \<open>p\<close> and then at \<open>q\<close> gives the array that rotating once
  at \<open>p + q\<close> gives; and rotating at \<open>p\<close> and then at \<open>- p\<close> gives back the values of \<open>x\<close>.
\<close>

lemma apply_rope_composition:
  assumes "well_formed x" and "shape x = [B, S, H, D]" and "even D"
    and "well_formed p" and "shape p = [B, S]" and "shape q = [B, S]"
    and "0 < B" and "0 < S" and "0 < H" and "0 < base"
  shows "(\<exists>y1 y2 pq y3. apply_rope x p base = Inr y1 \<and> apply_rope y1 q base = Inr y2 \<and>
            add p q = Inr pq \<and> apply_rope x pq base = Inr y3 \<and> y2 = y3) \<and>
         (\<exists>y1 y2. apply_rope x p base = Inr y1 \<and> apply_rope y1 (negative p) base = Inr y2 \<and>
            shape y2 = shape x \<and> elems y2 = elems x)"
proof
  from assms(3) obtain K where K: "D = 2 * K" by (auto elim: evenE)
  have dv: "D div 2 = K" using K by simp
  note pos = assms(7-9)
  obtain y1 y2 where y: "apply_rope x p base = Inr y1" "apply_rope y1 q base = Inr y2"
    "shape y2 = [B, S, H, D]" "dtype y2 = Float32" "well_formed y2"
    and ev2: "\<And>b s h k. b < B \<Longrightarrow> s < S \<Longrightarrow> h < H \<Longrightarrow> k < D div 2 \<Longrightarrow>
       entry y2 [b, s, h, 2 * k] =
         entry x [b, s, h, 2 * k] * cos (rope_angle p base D b s k + rope_angle q base D b s k)
         - entry x [b, s, h, 2 * k + 1] * sin (rope_angle p base D b s k + rope_angle q base D b s k)"
    and od2: "\<And>b s h k. b < B \<Longrightarrow> s < S \<Longrightarrow> h < H \<Longrightarrow> k < D div 2 \<Longrightarrow>
       entry y2 [b, s, h, 2 * k + 1] =
         entry x [b, s, h, 2 * k + 1] * cos (rope_angle p base D b s k + rope_angle q base D b s k)
         + entry x [b, s, h, 2 * k] * sin (rope_angle p base D b s k + rope_angle q base D b s k)"
    using assms(2,3,5,6) pos by (rule apply_rope_twice[where base = base]) blast
  obtain pq where pq: "add p q = Inr pq" "shape pq = [B, S]"
    and en: "\<And>b s. b < B \<Longrightarrow> s < S \<Longrightarrow> entry pq [b, s] = entry p [b, s] + entry q [b, s]"
    using assms(5,6) by (rule add_positions) blast
  have ang: "rope_angle pq base D b s k = rope_angle p base D b s k + rope_angle q base D b s k"
    if "b < B" "s < S" for b s k
    by (simp add: rope_angle_def en[OF that] algebra_simps)
  obtain y3 where y3: "apply_rope x pq base = Inr y3" "shape y3 = [B, S, H, D]"
      "dtype y3 = Float32" "well_formed y3"
    and ev3: "\<And>b s h k. b < B \<Longrightarrow> s < S \<Longrightarrow> h < H \<Longrightarrow> k < D div 2 \<Longrightarrow>
       entry y3 [b, s, h, 2 * k] =
         entry x [b, s, h, 2 * k] * cos (rope_angle pq base D b s k)
         - entry x [b, s, h, 2 * k + 1] * sin (rope_angle pq base D b s k)"
    and od3: "\<And>b s h k. b < B \<Longrightarrow> s < S \<Longrightarrow> h < H \<Longrightarrow> k < D div 2 \<Longrightarrow>
       entry y3 [b, s, h, 2 * k + 1] =
         entry x [b, s, h, 2 * k + 1] * cos (rope_angle pq base D b s k)
         + entry x [b, s, h, 2 * k] * sin (rope_angle pq base D b s k)"
    using assms(2,3) pq(2) pos by (rule apply_rope_even[where base = base]) blast
  have "elems y2 = elems y3"
  proof (rule ext_pairs)
    show "well_formed y2" "well_formed y3" by (rule y(5), rule y3(4))
    show "shape y2 = [B, S, H, 2 * K]" "shape y3 = [B, S, H, 2 * K]"
      using y(3) y3(2) K by simp_all
  next
    fix b s h k assume r: "b < B" "s < S" "h < H" "k < K"
    then have k: "k < D div 2" using dv by simp
    show "entry y2 [b, s, h, 2 * k] = entry y3 [b, s, h, 2 * k] \<and>
          entry y2 [b, s, h, 2 * k + 1] = entry y3 [b, s, h, 2 * k + 1]"
      unfolding ev2[OF r(1-3) k] od2[OF r(1-3) k] ev3[OF r(1-3) k] od3[OF r(1-3) k]
        ang[OF r(1,2)] by simp
  qed
  then have "y2 = y3" using y(3,4) y3(2,3) by (intro ndarray.equality) simp_all
  then show "\<exists>y1 y2 pq y3. apply_rope x p base = Inr y1 \<and> apply_rope y1 q base = Inr y2 \<and>
            add p q = Inr pq \<and> apply_rope x pq base = Inr y3 \<and> y2 = y3"
    using y(1,2) pq(1) y3(1) by blast
next
  from assms(3) obtain K where K: "D = 2 * K" by (auto elim: evenE)
  have dv: "D div 2 = K" using K by simp
  note pos = assms(7-9)
  have n: "shape (negative p) = [B, S]" using assms(5) by (simp add: negative_props)
  obtain y1 y2 where y: "apply_rope x p base = Inr y1" "apply_rope y1 (negative p) base = Inr y2"
    "shape y2 = [B, S, H, D]" "well_formed y2"
    and ev2: "\<And>b s h k. b < B \<Longrightarrow> s < S \<Longrightarrow> h < H \<Longrightarrow> k < D div 2 \<Longrightarrow>
       entry y2 [b, s, h, 2 * k] =
         entry x [b, s, h, 2 * k]
           * cos (rope_angle p base D b s k + rope_angle (negative p) base D b s k)
         - entry x [b, s, h, 2 * k + 1]
           * sin (rope_angle p base D b s k + rope_angle (negative p) base D b s k)"
    and od2: "\<And>b s h k. b < B \<Longrightarrow> s < S \<Longrightarrow> h < H \<Longrightarrow> k < D div 2 \<Longrightarrow>
       entry y2 [b, s, h, 2 * k + 1] =
         entry x [b, s, h, 2 * k + 1]
           * cos (rope_angle p base D b s k + rope_angle (negative p) base D b s k)
         + entry x [b, s, h, 2 * k]
           * sin (rope_angle p base D b s k + rope_angle (negative p) base D b s k)"
    using assms(2,3,5) n pos by (rule apply_rope_twice[where base = base]) blast
  have "elems y2 = elems x"
  proof (rule ext_pairs)
    show "well_formed y2" "well_formed x" by (rule y(4), rule assms(1))
    show "shape y2 = [B, S, H, 2 * K]" "shape x = [B, S, H, 2 * K]"
      using y(3) assms(2) K by simp_all
  next
    fix b s h k assume r: "b < B" "s < S" "h < H" "k < K"
    then have k: "k < D div 2" using dv by simp
    have z: "rope_angle p base D b s k + rope_angle (negative p) base D b s k = 0"
      using rope_angle_negative[OF assms(4,5) r(1,2), of base D k] by simp
    show "entry y2 [b, s, h, 2 * k] = entry x [b, s, h, 2 * k] \<and>
          entry y2 [b, s, h, 2 * k + 1] = entry x [b, s, h, 2 * k + 1]"
      unfolding ev2[OF r(1-3) k] od2[OF r(1-3) k] z by simp
  qed
  then show "\<exists>y1 y2. apply_rope x p base = Inr y1 \<and> apply_rope y1 (negative p) base = Inr y2 \<and>
            shape y2 = shape x \<and> elems y2 = elems x"
    using y(1-3) assms(2) by (intro exI[of _ y1] exI[of _ y2]) simp
qed

lemma apply_rope_composition_witness:
  "(\<exists>y1 y2 pq y3. apply_rope x_unit position_quarter DEFAULT_BASE = Inr y1 \<and>
       apply_rope y1 position_quarter DEFAULT_BASE = Inr y2 \<and>
       add position_quarter position_quarter = Inr pq \<and>
       apply_rope x_unit pq DEFAULT_BASE = Inr y3 \<and> y2 = y3) \<and>
   (\<exists>y1 y2. apply_rope x_unit position_quarter DEFAULT_BASE = Inr y1 \<and>
       apply_rope y1 (negative position_quarter) DEFAULT_BASE = Inr y2 \<and>
       shape y2 = [1, 1, 1, 2] \<and> elems y2 = [1, 0])"
proof -
  have h: "well_formed x_unit" "shape x_unit = [1, 1, 1, 2]" "even (2::nat)"
    "well_formed position_quarter" "shape position_quarter = [1, 1]" "0 < (1::nat)"
    by (simp_all add: x_unit_def position_quarter_def well_formed_def)
  have e: "elems x_unit = [1, 0]" by (simp add: x_unit_def)
  have b: "0 < DEFAULT_BASE" by (simp add: DEFAULT_BASE_def)
  show ?thesis
    using apply_rope_composition[OF h(1-5) h(5) h(6) h(6) h(6) b]
    unfolding h(2) e .
qed

text \<open>
  C10. For every \<open>x\<close> of shape \<open>(B, S, H, D)\<close> with \<open>D\<close> even, rotating at \<open>p\<close> and then at \<open>q\<close>
  is to equal rotating at \<open>p + q\<close>, and rotating at \<open>p\<close> and then at \<open>- p\<close> is to give \<open>x\<close>.
  On an input without heads, of shape \<open>(1, 1, 0, 2)\<close>, already the first rotation
  returns no array, so neither the composed rotation nor the rotation at \<open>p + p\<close> does:
  the last \<^verbatim>\<open>reshape\<close> fails as it does for the empty batch.
\<close>

theorem apply_rope_composition_no_heads:
  "well_formed x_no_heads \<and> shape x_no_heads = [1, 1, 0, 2] \<and>
   apply_rope x_no_heads position_quarter DEFAULT_BASE = Inl ReshapeError \<and>
   bind (apply_rope x_no_heads position_quarter DEFAULT_BASE)
     (\<lambda>y. apply_rope y (negative position_quarter) DEFAULT_BASE) = Inl ReshapeError \<and>
   bind (add position_quarter position_quarter)
     (\<lambda>pq. apply_rope x_no_heads pq DEFAULT_BASE) = Inl ReshapeError"
  by (simp add: rope_defs x_no_heads_def position_quarter_def well_formed_def
        DEFAULT_BASE_def upt_rec)

section \<open>Relative position\<close>

lemma unit_relative_rotation:
  fixes a c a' c' u v m n :: real
  assumes "u * u + v * v = 1"
  shows "(a * v - c * u) * (a' * (v * m - u * n) - c' * (u * m + v * n))
       + (c * v + a * u) * (c' * (v * m - u * n) + a' * (u * m + v * n))
       = a * (a' * m - c' * n) + c * (c' * m + a' * n)"
proof -
  have "(a * v - c * u) * (a' * (v * m - u * n) - c' * (u * m + v * n))
       + (c * v + a * u) * (c' * (v * m - u * n) + a' * (u * m + v * n))
       = (a * (a' * m - c' * n) + c * (c' * m + a' * n)) * (u * u + v * v)"
    by (simp add: algebra_simps)
  then show ?thesis using assms by simp
qed

lemma relative_rotation:
  fixes a c a' c' f d :: real
  shows "(a * cos f - c * sin f) * (a' * cos (f + d) - c' * sin (f + d))
       + (c * cos f + a * sin f) * (c' * cos (f + d) + a' * sin (f + d))
       = a * (a' * cos d - c' * sin d) + c * (c' * cos d + a' * sin d)"
proof -
  have "sin f * sin f + cos f * cos f = 1"
    using sin_cos_squared_add[of f] by (simp add: power2_eq_square)
  then show ?thesis unfolding cos_add sin_add by (rule unit_relative_rotation)
qed

lemma sum_pairs:
  fixes f :: "nat \<Rightarrow> real"
  shows "(\<Sum>d<2 * K. f d) = (\<Sum>k<K. f (2 * k) + f (2 * k + 1))"
  by (induction K) simp_all

text \<open>
  C5. For valid \<open>x\<close> and \<open>y\<close> of one shape, a position array \<open>p\<close> and a scalar shift
  \<open>\<delta>\<close>: at every \<open>(b, s, h)\<close> the dot product over the last axis of \<open>apply_rope(x, p)\<close>
  with \<open>apply_rope(y, p + \<delta>)\<close> equals that of \<open>x\<close> with \<open>apply_rope(y, \<delta>)\<close>, the rotation of
  \<open>y\<close> at the constant position \<open>\<delta>\<close>; the same holds plane by plane. The right-hand
  side does not mention \<open>p\<close>: the product depends on \<open>\<delta>\<close>, \<open>x\<close> and \<open>y\<close> only.
\<close>

theorem apply_rope_relative_position:
  assumes "shape x = [B, S, H, D]" and "shape y = [B, S, H, D]" and "even D"
    and "well_formed p" and "shape p = [B, S]" and "0 < base"
    and "b < B" and "s < S" and "h < H"
  shows "\<exists>rx ry r0.
      apply_rope x p base = Inr rx \<and>
      apply_rope y (add_scalar p \<delta>) base = Inr ry \<and>
      apply_rope y (full (dtype p) [B, S] \<delta>) base = Inr r0 \<and>
      (\<forall>k < D div 2.
          entry rx [b, s, h, 2 * k] * entry ry [b, s, h, 2 * k]
          + entry rx [b, s, h, 2 * k + 1] * entry ry [b, s, h, 2 * k + 1]
          = entry x [b, s, h, 2 * k] * entry r0 [b, s, h, 2 * k]
          + entry x [b, s, h, 2 * k + 1] * entry r0 [b, s, h, 2 * k + 1]) \<and>
      (\<Sum>d<D. entry rx [b, s, h, d] * entry ry [b, s, h, d])
        = (\<Sum>d<D. entry x [b, s, h, d] * entry r0 [b, s, h, d])"
proof -
  from assms(3) obtain K where K: "D = 2 * K" by (auto elim: evenE)
  have pos: "0 < B" "0 < S" "0 < H" using assms(7-9) by simp_all
  note r = assms(7-9)
  let ?q = "add_scalar p \<delta>" and ?c = "full (dtype p) [B, S] \<delta>"
  have q: "shape ?q = [B, S]" using assms(5) by (simp add: add_scalar_props)
  have c: "shape ?c = [B, S]" by (simp add: full_props)
  define f where "f k = rope_angle p base D b s k" for k
  define g where "g k = \<delta> * base powr (- 2 * real k / real D)" for k
  have aq: "rope_angle ?q base D b s k = f k + g k" for k
    unfolding f_def g_def using assms(4,5) r(1,2) by (rule rope_angle_add_scalar)
  have ac: "rope_angle ?c base D b s k = g k" for k
    unfolding g_def using r(1,2) by (rule rope_angle_full)
  obtain rx where rx: "apply_rope x p base = Inr rx"
    and evx: "\<And>b s h k. b < B \<Longrightarrow> s < S \<Longrightarrow> h < H \<Longrightarrow> k < D div 2 \<Longrightarrow>
       entry rx [b, s, h, 2 * k] =
         entry x [b, s, h, 2 * k] * cos (rope_angle p base D b s k)
         - entry x [b, s, h, 2 * k + 1] * sin (rope_angle p base D b s k)"
    and odx: "\<And>b s h k. b < B \<Longrightarrow> s < S \<Longrightarrow> h < H \<Longrightarrow> k < D div 2 \<Longrightarrow>
       entry rx [b, s, h, 2 * k + 1] =
         entry x [b, s, h, 2 * k + 1] * cos (rope_angle p base D b s k)
         + entry x [b, s, h, 2 * k] * sin (rope_angle p base D b s k)"
    using assms(1,3,5) pos by (rule apply_rope_even[where base = base]) blast
  obtain ry where ry: "apply_rope y ?q base = Inr ry"
    and evy: "\<And>b s h k. b < B \<Longrightarrow> s < S \<Longrightarrow> h < H \<Longrightarrow> k < D div 2 \<Longrightarrow>
       entry ry [b, s, h, 2 * k] =
         entry y [b, s, h, 2 * k] * cos (rope_angle ?q base D b s k)
         - entry y [b, s, h, 2 * k + 1] * sin (rope_angle ?q base D b s k)"
    and ody: "\<And>b s h k. b < B \<Longrightarrow> s < S \<Longrightarrow> h < H \<Longrightarrow> k < D div 2 \<Longrightarrow>
       entry ry [b, s, h, 2 * k + 1] =
         entry y [b, s, h, 2 * k + 1] * cos (rope_angle ?q base D b s k)
         + entry y [b, s, h, 2 * k] * sin (rope_angle ?q base D b s k)"
    using assms(2,3) q pos by (rule apply_rope_even[where base = base]) blast
  obtain r0 where r0: "apply_rope y ?c base = Inr r0"
    and ev0: "\<And>b s h k. b < B \<Longrightarrow> s < S \<Longrightarrow> h < H \<Longrightarrow> k < D div 2 \<Longrightarrow>
       entry r0 [b, s, h, 2 * k] =
         entry y [b, s, h, 2 * k] * cos (rope_angle ?c base D b s k)
         - entry y [b, s, h, 2 * k + 1] * sin (rope_angle ?c base D b s k)"
    and od0: "\<And>b s h k. b < B \<Longrightarrow> s < S \<Longrightarrow> h < H \<Longrightarrow> k < D div 2 \<Longrightarrow>
       entry r0 [b, s, h, 2 * k + 1] =
         entry y [b, s, h, 2 * k + 1] * cos (rope_angle ?c base D b s k)
         + entry y [b, s, h, 2 * k] * sin (rope_angle ?c base D b s k)"
    using assms(2,3) c pos by (rule apply_rope_even[where base = base]) blast
  have plane: "entry rx [b, s, h, 2 * k] * entry ry [b, s, h, 2 * k]
          + entry rx [b, s, h, 2 * k + 1] * entry ry [b, s, h, 2 * k + 1]
          = entry x [b, s, h, 2 * k] * entry r0 [b, s, h, 2 * k]
          + entry x [b, s, h, 2 * k + 1] * entry r0 [b, s, h, 2 * k + 1]"
    if k: "k < D div 2" for k
    unfolding evx[OF r k] odx[OF r k] evy[OF r k] ody[OF r k] ev0[OF r k] od0[OF r k] aq ac
      f_def[symmetric]
    by (rule relative_rotation)
  have "(\<Sum>d<D. entry rx [b, s, h, d] * entry ry [b, s, h, d])
      = (\<Sum>k<K. entry rx [b, s, h, 2 * k] * entry ry [b, s, h, 2 * k]
          + entry rx [b, s, h, 2 * k + 1] * entry ry [b, s, h, 2 * k + 1])"
    unfolding K by (rule sum_pairs)
  also have "\<dots> = (\<Sum>k<K. entry x [b, s, h, 2 * k] * entry r0 [b, s, h, 2 * k]
          + entry x [b, s, h, 2 * k + 1] * entry r0 [b, s, h, 2 * k + 1])"
    using plane K by (intro sum.cong) simp_all
  also have "\<dots> = (\<Sum>d<D. entry x [b, s, h, d] * entry r0 [b, s, h, d])"
    unfolding K by (rule sum_pairs[symmetric])
  finally have total: "(\<Sum>d<D. entry rx [b, s, h, d] * entry ry [b, s, h, d])
      = (\<Sum>d<D. entry x [b, s, h, d] * entry r0 [b, s, h, d])" .
  show ?thesis using rx ry r0 plane total by (intro exI[of _ rx] exI[of _ ry] exI[of _ r0]) simp
qed

theorem apply_rope_relative_position_witness:
  "\<exists>rx ry r0.
      apply_rope x_unit position_quarter DEFAULT_BASE = Inr rx \<and>
      apply_rope x_unit (add_scalar position_quarter 3) DEFAULT_BASE = Inr ry \<and>
      apply_rope x_unit (full Float32 [1, 1] 3) DEFAULT_BASE = Inr r0 \<and>
      (\<Sum>d<2. entry rx [0, 0, 0, d] * entry ry [0, 0, 0, d])
        = (\<Sum>d<2. entry x_unit [0, 0, 0, d] * entry r0 [0, 0, 0, d])"
proof -
  have h: "shape x_unit = [1, 1, 1, 2]" "even (2::nat)"
    "well_formed position_quarter" "shape position_quarter = [1, 1]" "(0::nat) < 1"
    by (simp_all add: x_unit_def position_quarter_def well_formed_def)
  have d: "dtype position_quarter = Float32" by (simp add: position_quarter_def)
  have b: "0 < DEFAULT_BASE" by (simp add: DEFAULT_BASE_def)
  show ?thesis
    using apply_rope_relative_position[OF h(1) h(1) h(2-4) b h(5) h(5) h(5), of 3]
    unfolding d by blast
qed

end
